theory Spec2Isabelle
  imports Complex_Main "HOL-Library.Sublist"
begin

section \<open>Plan Compiler (scripts/playwright-bridge.mjs)\<close>

subsection \<open>Data model\<close>

text \<open>
  A SemanticAction is a JSON object tagged by its \<open>type\<close> field; each constructor carries
  the fields the extractor emits for that tag. \<open>Other t\<close> is an action whose type string
  \<open>t\<close> is none of the ten the \<open>switch\<close> lists (the \<open>default\<close> branch).
\<close>

datatype action =
    Navigate string
  | Fill string string
  | Clear string
  | Click string
  | GetText string
  | AssertText string string
  | AssertTrue string
  | AssertFalse string
  | Wait string
  | CountElements string
  | Other string

text \<open>The \<open>type\<close> field of an action.\<close>

fun atype :: "action \<Rightarrow> string" where
  "atype (Navigate url) = ''navigate''"
| "atype (Fill sel v) = ''fill''"
| "atype (Clear sel) = ''clear''"
| "atype (Click sel) = ''click''"
| "atype (GetText sel) = ''get_text''"
| "atype (AssertText sel expected) = ''assert_text''"
| "atype (AssertTrue e) = ''assert_true''"
| "atype (AssertFalse e) = ''assert_false''"
| "atype (Wait sel) = ''wait''"
| "atype (CountElements sel) = ''count_elements''"
| "atype (Other t) = t"

text \<open>The \<open>args\<close> object of a step, one constructor per shape the compiler writes.\<close>

datatype step_args =
    UrlArgs string
  | EmptyArgs
  | TimeArgs nat
  | TextArgs string
  | FunctionArgs string

text \<open>One entry of \<open>args_template.fields\<close>.\<close>

record form_field =
  element :: string
  ref :: string
  fvalue :: string

text \<open>
  The \<open>args_template\<close> object: \<open>{ fields: [...] }\<close> for browser_fill_form,
  \<open>{ element, ref }\<close> for browser_click.
\<close>

datatype args_template =
    FieldsTemplate "form_field list"
  | ElementTemplate string string

text \<open>
  A plan step. A key the source leaves out of the object literal is \<open>None\<close> (or
  \<open>False\<close> for the two flags \<open>_snapshot_marker\<close> and \<open>skipped\<close>, which are only ever
  written as \<open>true\<close>). \<open>seq\<close> is a JavaScript number: the auto-inserted steps are
  created with 0.1 and 0.2 before renumbering.
\<close>

record step =
  seq :: rat
  mcp_tool :: string
  args :: "step_args option"
  args_template :: "args_template option"
  note_text :: string
  snapshot_marker :: bool
  selector_hint :: "string option"
  original_action :: "action option"
  locator_status :: "string option"
  skipped :: bool

text \<open>A step with only the keys \<open>seq\<close>, \<open>mcp_tool\<close> and \<open>note\<close>.\<close>

definition bare_step :: "rat \<Rightarrow> string \<Rightarrow> string \<Rightarrow> step" where
  "bare_step n tool nt =
     \<lparr> seq = n, mcp_tool = tool, args = None, args_template = None, note_text = nt,
       snapshot_marker = False, selector_hint = None, original_action = None,
       locator_status = None, skipped = False \<rparr>"

text \<open>The snapshot step object literal, which differs between call sites only in its note.\<close>

definition snapshot_step :: "rat \<Rightarrow> string \<Rightarrow> step" where
  "snapshot_step n nt =
     (bare_step n ''browser_snapshot'' nt) \<lparr> args := Some EmptyArgs, snapshot_marker := True \<rparr>"

definition ref_placeholder :: string where
  "ref_placeholder = ''{{ resolve ref from latest snapshot }}''"

subsection \<open>String helpers\<close>

definition startsWith :: "string \<Rightarrow> string \<Rightarrow> bool" where
  "startsWith s p = prefix p s"

text \<open>\<open>s.slice(n)\<close> for a non-negative \<open>n\<close>.\<close>

definition slice_from :: "nat \<Rightarrow> string \<Rightarrow> string" where
  "slice_from n s = drop n s"

text \<open>The double quote character, and a string wrapped in double quotes.\<close>

definition dq :: char where
  "dq = CHR 0x22"

definition quoted :: "string \<Rightarrow> string" where
  "quoted s = dq # s @ [dq]"

section \<open>Regular expressions\<close>

text \<open>
  The extractor and the description generator work through JavaScript regular expressions.
  A string is the list of its code units, each below 256. The patterns of the source use
  literals, character classes, sequence, the greedy and lazy star, \<open>+\<close>, \<open>?\<close> and
  capture groups only; \<open>re\<close> has one constructor for each.
\<close>

datatype re =
    Eps
  | Cls "char \<Rightarrow> bool"
  | Seq re re
  | Alt re re
  | Star re
  | LazyStar re
  | Grp nat re

type_synonym caps = "nat \<Rightarrow> string option"

text \<open>
  The backtracking matcher: all ways \<open>r\<close> matches a prefix of the input, as the remaining
  input and the captures after it, in the order the backtracking search of the engine tries
  them (first alternative first, greedy star longest first, lazy star shortest first). An
  iteration of a star that consumes nothing is rejected, as in ECMAScript's RepeatMatcher.
\<close>

function ms :: "re \<Rightarrow> string \<times> caps \<Rightarrow> (string \<times> caps) list" where
  "ms Eps st = [st]"
| "ms (Cls p) (s, c) = (case s of [] \<Rightarrow> [] | x # xs \<Rightarrow> if p x then [(xs, c)] else [])"
| "ms (Seq a b) st = concat (map (ms b) (ms a st))"
| "ms (Alt a b) st = ms a st @ ms b st"
| "ms (Star a) (s, c) =
     concat (map (ms (Star a)) (filter (\<lambda>st'. length (fst st') < length s) (ms a (s, c))))
     @ [(s, c)]"
| "ms (LazyStar a) (s, c) =
     (s, c) #
     concat (map (ms (LazyStar a)) (filter (\<lambda>st'. length (fst st') < length s) (ms a (s, c))))"
| "ms (Grp n a) (s, c) =
     map (\<lambda>st'. (fst st', (snd st')(n \<mapsto> take (length s - length (fst st')) s))) (ms a (s, c))"
  by pat_completeness auto
termination
  by (relation "inv_image (less_than <*lex*> less_than) (\<lambda>(r, s, c). (size r, length s))") auto

declare ms.simps(5,6) [simp del]

text \<open>Pattern syntax: a literal character, a literal string, \<open>r+\<close>, \<open>r?\<close>.\<close>

definition chr :: "char \<Rightarrow> re" where
  "chr c = Cls (\<lambda>x. x = c)"

definition notc :: "char \<Rightarrow> re" where
  "notc c = Cls (\<lambda>x. x \<noteq> c)"

fun lit :: "string \<Rightarrow> re" where
  "lit [] = Eps"
| "lit (x # xs) = Seq (chr x) (lit xs)"

definition plus_re :: "re \<Rightarrow> re" where
  "plus_re r = Seq r (Star r)"

definition opt :: "re \<Rightarrow> re" where
  "opt r = Alt r Eps"

text \<open>A sequence of several patterns.\<close>

fun seqs :: "re list \<Rightarrow> re" where
  "seqs [] = Eps"
| "seqs (r # rs) = Seq r (seqs rs)"

text \<open>
  \<open>\s\<close> (white space and line terminators below 256), \<open>\w\<close>, and \<open>.\<close> (anything
  but a line terminator).
\<close>

definition isSpace :: "char \<Rightarrow> bool" where
  "isSpace x = (x \<in> set [CHR 0x09, CHR 0x0A, CHR 0x0B, CHR 0x0C, CHR 0x0D, CHR 0x20, CHR 0xA0])"

definition isWord :: "char \<Rightarrow> bool" where
  "isWord x = (x \<in> set ''abcdefghijklmnopqrstuvwxyzABCDEFGHIJKLMNOPQRSTUVWXYZ0123456789_'')"

definition ws :: re where
  "ws = Star (Cls isSpace)"

definition dot :: re where
  "dot = Cls (\<lambda>x. x \<noteq> CHR 0x0A \<and> x \<noteq> CHR 0x0D)"

text \<open>The first match of \<open>r\<close> starting exactly at the head of \<open>s\<close>.\<close>

definition matchAt :: "re \<Rightarrow> string \<Rightarrow> (string \<times> caps) option" where
  "matchAt r s = (case ms r (s, Map.empty) of [] \<Rightarrow> None | st # _ \<Rightarrow> Some st)"

text \<open>
  \<open>str.match(r)\<close> without the \<open>g\<close> flag: the leftmost start position with a match, as
  (start index, input after the match, captures).
\<close>

fun search :: "re \<Rightarrow> string \<Rightarrow> (nat \<times> string \<times> caps) option" where
  "search r [] = (case matchAt r [] of None \<Rightarrow> None | Some (rest, c) \<Rightarrow> Some (0, rest, c))"
| "search r (x # xs) =
     (case matchAt r (x # xs) of
        Some (rest, c) \<Rightarrow> Some (0, rest, c)
      | None \<Rightarrow> (case search r xs of None \<Rightarrow> None | Some (i, rest, c) \<Rightarrow> Some (Suc i, rest, c)))"

text \<open>
  A pattern between \<open>^\<close> and \<open>$\<close>: the first way, in backtracking order, of matching
  the whole string.
\<close>

definition matchWhole :: "re \<Rightarrow> string \<Rightarrow> caps option" where
  "matchWhole r s =
     (case filter (\<lambda>st. fst st = []) (ms r (s, Map.empty)) of [] \<Rightarrow> None | st # _ \<Rightarrow> Some (snd st))"

text \<open>A match object: \<open>index\<close>, the index just after the match, and the groups.\<close>

record rmatch =
  index :: nat
  endIndex :: nat
  groups :: caps

text \<open>
  \<open>str.matchAll(r)\<close> with the \<open>g\<close> flag, on the part \<open>s\<close> of the text that starts at
  offset \<open>off\<close>: each search resumes where the last match ended, one further after an
  empty match.
\<close>

function matchAllFrom :: "re \<Rightarrow> nat \<Rightarrow> string \<Rightarrow> rmatch list" where
  "matchAllFrom r off s =
     (case search r s of
        None \<Rightarrow> []
      | Some (i, rest, c) \<Rightarrow>
          (let e = length s - length rest in
           \<lparr> index = off + i, endIndex = off + e, groups = c \<rparr> #
           (if i < e then matchAllFrom r (off + e) (drop e s)
            else if i < length s then matchAllFrom r (off + i + 1) (drop (i + 1) s)
            else [])))"
  by pat_completeness auto
termination
  by (relation "measure (\<lambda>(r, off, s). length s)") auto

declare matchAllFrom.simps [simp del]

definition matchAll :: "re \<Rightarrow> string \<Rightarrow> rmatch list" where
  "matchAll r s = matchAllFrom r 0 s"

text \<open>
  \<open>m[n]\<close> for a group that lies on every path through its pattern (all groups of the
  source's patterns do), so that a match always sets it.
\<close>

definition grp :: "caps \<Rightarrow> nat \<Rightarrow> string" where
  "grp c n = (case c n of Some g \<Rightarrow> g | None \<Rightarrow> [])"

text \<open>\<open>s.trim()\<close>.\<close>

definition trim :: "string \<Rightarrow> string" where
  "trim s = rev (dropWhile isSpace (rev (dropWhile isSpace s)))"

section \<open>Action extraction (extract-actions.mjs)\<close>

subsection \<open>Locator Normalizer\<close>

text \<open>The pattern \<open>By\.id\s*\(\s*"([^"]+)"\s*\)\<close>, for the locator name \<open>k\<close> (here By.id).\<close>

definition byRe :: "string \<Rightarrow> re" where
  "byRe k = seqs [lit k, ws, chr CHR ''('', ws, chr dq, Grp 1 (plus_re (notc dq)), chr dq, ws,
                  chr CHR '')'']"

definition byToSelector :: "string \<Rightarrow> string" where
  "byToSelector byExpr =
     (case search (byRe ''By.id'') byExpr of
        Some (i, rest, m) \<Rightarrow> ''#'' @ grp m 1
      | None \<Rightarrow>
     (case search (byRe ''By.name'') byExpr of
        Some (i, rest, m) \<Rightarrow> ''[name='' @ quoted (grp m 1) @ '']''
      | None \<Rightarrow>
     (case search (byRe ''By.cssSelector'') byExpr of
        Some (i, rest, m) \<Rightarrow> grp m 1
      | None \<Rightarrow>
     (case search (byRe ''By.xpath'') byExpr of
        Some (i, rest, m) \<Rightarrow> ''xpath='' @ grp m 1
      | None \<Rightarrow>
     (case search (byRe ''By.className'') byExpr of
        Some (i, rest, m) \<Rightarrow> ''.'' @ grp m 1
      | None \<Rightarrow>
     (case search (byRe ''By.tagName'') byExpr of
        Some (i, rest, m) \<Rightarrow> grp m 1
      | None \<Rightarrow>
     (case search (byRe ''By.linkText'') byExpr of
        Some (i, rest, m) \<Rightarrow> ''text='' @ quoted (grp m 1)
      | None \<Rightarrow> byExpr)))))))"

subsection \<open>Method Segmenter\<close>

text \<open>\<open>@Test[\s\S]*?(?:public\s+)?void\s+(\w+)\s*\([^)]*\)\s*\{\<close>\<close>

definition testMethodRe :: re where
  "testMethodRe =
     seqs [lit ''@Test'', LazyStar (Cls (\<lambda>x. True)),
           opt (Seq (lit ''public'') (plus_re (Cls isSpace))),
           lit ''void'', plus_re (Cls isSpace), Grp 1 (plus_re (Cls isWord)), ws,
           chr CHR ''('', Star (notc CHR '')''), chr CHR '')'', ws, chr CHR ''{'']"

text \<open>
  The inner \<open>while (i < code.length && depth > 0)\<close> loop, run on the text after the opening
  brace: the number of characters it steps over.
\<close>

fun scanBody :: "int \<Rightarrow> string \<Rightarrow> nat" where
  "scanBody depth [] = 0"
| "scanBody depth (ch # rest) =
     (if depth > 0 then
        (let d1 = (if ch = CHR ''{'' then depth + 1 else depth);
             d2 = (if ch = CHR ''}'' then d1 - 1 else d1)
         in Suc (scanBody d2 rest))
      else 0)"

text \<open>
  One method per match of the pattern (the \<open>exec\<close> loop visits the matches \<open>matchAll\<close>
  lists: every match starts with @Test and is not empty): its name and its body,
  \<open>code.slice(startBrace, i)\<close>.
\<close>

definition methodOfMatch :: "string \<Rightarrow> rmatch \<Rightarrow> string \<times> string" where
  "methodOfMatch code m =
     (let startBrace = endIndex m - 1;
          i = startBrace + 1 + scanBody 1 (drop (startBrace + 1) code)
      in (grp (groups m) 1, take (i - startBrace) (drop startBrace code)))"

definition splitTestMethods :: "string \<Rightarrow> (string \<times> string) list" where
  "splitTestMethods code = map (methodOfMatch code) (matchAll testMethodRe code)"

subsection \<open>Action Recognizer\<close>

text \<open>\<open>findElement\s*\(\s*(By\.[^)]+\))\s*\)\<close> and what follows it up to a \<open>(\<close>.\<close>

definition findRe :: "string \<Rightarrow> string \<Rightarrow> re list" where
  "findRe f call =
     [lit f, ws, chr CHR ''('', ws,
      Grp 1 (seqs [lit ''By.'', plus_re (notc CHR '')''), chr CHR '')'']), ws, chr CHR '')'',
      lit call, ws, chr CHR ''('', ws]"

definition navigateRe :: re where
  "navigateRe = seqs [lit ''driver.get'', ws, chr CHR ''('', ws,
                      Grp 1 (plus_re (notc CHR '')'')), ws, chr CHR '')'']"

definition fillRe :: re where
  "fillRe = seqs (findRe ''findElement'' ''.sendKeys''
                  @ [Grp 2 (plus_re (notc CHR '')'')), ws, chr CHR '')''])"

definition clearRe :: re where
  "clearRe = seqs (findRe ''findElement'' ''.clear'' @ [chr CHR '')''])"

definition clickRe :: re where
  "clickRe = seqs (findRe ''findElement'' ''.click'' @ [chr CHR '')''])"

definition getTextRe :: re where
  "getTextRe = seqs (findRe ''findElement'' ''.getText'' @ [chr CHR '')''])"

definition assertEqualsRe :: re where
  "assertEqualsRe =
     seqs [lit ''assertEquals'', ws, chr CHR ''('', ws, chr dq, Grp 1 (plus_re (notc dq)), chr dq,
           ws, chr CHR '','', ws, LazyStar dot, lit ''findElement'', ws, chr CHR ''('', ws,
           Grp 2 (seqs [lit ''By.'', plus_re (notc CHR '')''), chr CHR '')'']), ws, chr CHR '')'',
           lit ''.getText'']"

definition assertTrueRe :: re where
  "assertTrueRe = seqs [lit ''assertTrue'', ws, chr CHR ''('',
                        Grp 1 (plus_re (notc CHR '';'')), chr CHR '')'']"

definition assertFalseRe :: re where
  "assertFalseRe = seqs [lit ''assertFalse'', ws, chr CHR ''('',
                         Grp 1 (plus_re (notc CHR '';'')), chr CHR '')'']"

definition waitRe :: re where
  "waitRe = seqs [lit ''ExpectedConditions.'', plus_re (Cls isWord), ws, chr CHR ''('', ws,
                  Grp 1 (seqs [lit ''By.'', plus_re (notc CHR '')''), chr CHR '')'']), ws,
                  chr CHR '')'']"

definition countRe :: re where
  "countRe = seqs (findRe ''findElements'' ''.size'' @ [chr CHR '')''])"

text \<open>
  A string literal is copied, any other expression is wrapped as \<open>{{ expr }}\<close>: the
  source tests \<open>^"([^"]+)"$\<close> for a URL and \<open>^"([^"]*)"$\<close> for a typed value.
\<close>

definition literalOr :: "re \<Rightarrow> string \<Rightarrow> string" where
  "literalOr inner expr =
     (case matchWhole (seqs [chr dq, Grp 1 inner, chr dq]) expr of
        Some m \<Rightarrow> grp m 1
      | None \<Rightarrow> ''{{ '' @ expr @ '' }}'')"

definition navigateOf :: "rmatch \<Rightarrow> action" where
  "navigateOf m = Navigate (literalOr (plus_re (notc dq)) (trim (grp (groups m) 1)))"

definition fillOf :: "rmatch \<Rightarrow> action" where
  "fillOf m = Fill (byToSelector (grp (groups m) 1))
                   (literalOr (Star (notc dq)) (trim (grp (groups m) 2)))"

definition clearOf :: "rmatch \<Rightarrow> action" where
  "clearOf m = Clear (byToSelector (grp (groups m) 1))"

definition clickOf :: "rmatch \<Rightarrow> action" where
  "clickOf m = Click (byToSelector (grp (groups m) 1))"

definition getTextOf :: "rmatch \<Rightarrow> action" where
  "getTextOf m = GetText (byToSelector (grp (groups m) 1))"

definition assertTextOf :: "rmatch \<Rightarrow> action" where
  "assertTextOf m = AssertText (byToSelector (grp (groups m) 2)) (grp (groups m) 1)"

definition assertTrueOf :: "rmatch \<Rightarrow> action" where
  "assertTrueOf m = AssertTrue (trim (grp (groups m) 1))"

definition assertFalseOf :: "rmatch \<Rightarrow> action" where
  "assertFalseOf m = AssertFalse (trim (grp (groups m) 1))"

definition waitOf :: "rmatch \<Rightarrow> action" where
  "waitOf m = Wait (byToSelector (grp (groups m) 1))"

definition countOf :: "rmatch \<Rightarrow> action" where
  "countOf m = CountElements (byToSelector (grp (groups m) 1))"

text \<open>The matches of assertTrue that are pushed: those whose expression is not \<open>true\<close>.\<close>

definition assertTrueMatches :: "string \<Rightarrow> rmatch list" where
  "assertTrueMatches body =
     filter (\<lambda>m. trim (grp (groups m) 1) \<noteq> ''true'') (matchAll assertTrueRe body)"

text \<open>The ten \<open>for\<close> loops, each pushing onto \<open>actions\<close> in turn.\<close>

definition extractActionsFromBody :: "string \<Rightarrow> action list" where
  "extractActionsFromBody body =
       map navigateOf (matchAll navigateRe body)
     @ map fillOf (matchAll fillRe body)
     @ map clearOf (matchAll clearRe body)
     @ map clickOf (matchAll clickRe body)
     @ map getTextOf (matchAll getTextRe body)
     @ map assertTextOf (matchAll assertEqualsRe body)
     @ map assertTrueOf (assertTrueMatches body)
     @ map assertFalseOf (matchAll assertFalseRe body)
     @ map waitOf (matchAll waitRe body)
     @ map countOf (matchAll countRe body)"

record test_method =
  name :: string
  actions :: "action list"

definition extractActions :: "string \<Rightarrow> test_method list" where
  "extractActions javaCode =
     map (\<lambda>(n, body). \<lparr> name = n, actions = extractActionsFromBody body \<rparr>)
         (splitTestMethods javaCode)"

section \<open>Syntax Well-formedness Checker (validate-syntax.mjs), brace balance\<close>

text \<open>
  The \<open>for\<close> loop of check 1, on the text from index \<open>i\<close> on: \<open>ch\<close> is its first
  character and \<open>next\<close> the one after (undefined at the end). A branch that does \<open>i++\<close>
  before \<open>continue\<close> steps over two characters. The result is the final \<open>depth\<close>.
\<close>

fun scanBraces :: "int \<Rightarrow> bool \<Rightarrow> bool \<Rightarrow> bool \<Rightarrow> string \<Rightarrow> int" where
  "scanBraces depth inString inLineComment inBlockComment [] = depth"
| "scanBraces depth inString inLineComment inBlockComment (ch # rest) =
     (let next = (case rest of [] \<Rightarrow> None | n # r \<Rightarrow> Some n) in
      if inLineComment then
        scanBraces depth inString (if ch = CHR 0x0A then False else inLineComment)
          inBlockComment rest
      else if inBlockComment then
        (if ch = CHR ''*'' \<and> next = Some CHR ''/''
         then scanBraces depth inString inLineComment False (drop 1 rest)
         else scanBraces depth inString inLineComment inBlockComment rest)
      else if inString then
        (if ch = CHR 0x5C then scanBraces depth inString inLineComment inBlockComment (drop 1 rest)
         else if ch = dq then scanBraces depth False inLineComment inBlockComment rest
         else scanBraces depth inString inLineComment inBlockComment rest)
      else if ch = CHR ''/'' \<and> next = Some CHR ''/'' then
        scanBraces depth inString True inBlockComment rest
      else if ch = CHR ''/'' \<and> next = Some CHR ''*'' then
        scanBraces depth inString inLineComment True rest
      else if ch = dq then
        scanBraces depth True inLineComment inBlockComment rest
      else
        (let d1 = (if ch = CHR ''{'' then depth + 1 else depth);
             d2 = (if ch = CHR ''}'' then d1 - 1 else d1)
         in scanBraces d2 inString inLineComment inBlockComment rest))"

definition finalDepth :: "string \<Rightarrow> int" where
  "finalDepth code = scanBraces 0 False False False code"

text \<open>The \<open>errors\<close> entries check 1 pushes (the other checks are not modelled).\<close>

definition braceErrors :: "string \<Rightarrow> int list" where
  "braceErrors code = (if finalDepth code \<noteq> 0 then [finalDepth code] else [])"

section \<open>Tool handler (index.mjs), extract_actions\<close>

datatype tool_error = FileNotFound string

text \<open>
  The file system is a map from paths to file contents. \<open>test_name\<close> is \<open>None\<close> when
  the argument is left out; \<open>if (test_name)\<close> is false for that and for the empty string.
\<close>

definition handleExtractActions ::
  "(string \<rightharpoonup> string) \<Rightarrow> string \<Rightarrow> string option \<Rightarrow> tool_error + test_method list" where
  "handleExtractActions fs java_path test_name =
     (case fs java_path of
        None \<Rightarrow> Inl (FileNotFound java_path)
      | Some code \<Rightarrow>
          (let result = extractActions code in
           (case test_name of
              None \<Rightarrow> Inr result
            | Some tn \<Rightarrow>
                if tn \<noteq> [] then Inr (filter (\<lambda>m. name m = tn) result) else Inr result)))"

section \<open>Plan Compiler: lowering\<close>

text \<open>\<open>\[name="([^"]+)"\]\<close>\<close>

definition nameAttrRe :: re where
  "nameAttrRe = seqs [lit ''[name='', chr dq, Grp 1 (plus_re (notc dq)), chr dq, chr CHR '']'']"

definition selectorToDescription :: "string \<Rightarrow> string" where
  "selectorToDescription selector =
     (if startsWith selector ''#'' then ''element with id='' @ quoted (slice_from 1 selector)
      else if startsWith selector ''.'' then ''element with class='' @ quoted (slice_from 1 selector)
      else if startsWith selector ''[name='' then
        (let nm = (case search nameAttrRe selector of
                     Some (i, rest, m) \<Rightarrow> grp m 1
                   | None \<Rightarrow> selector)
         in ''input with name='' @ quoted nm)
      else if startsWith selector ''text='' then
        ''element with text '' @ quoted (slice_from 5 selector)
      else if startsWith selector ''xpath='' then ''element at xpath '' @ slice_from 6 selector
      else selector)"

text \<open>
  The primary steps of fill, click and clear: the object literal with \<open>args_template\<close>,
  \<open>selector_hint\<close>, \<open>original_action\<close>, \<open>note\<close> and \<open>locator_status: "pending"\<close>.
\<close>

definition pending_step :: "rat \<Rightarrow> string \<Rightarrow> args_template \<Rightarrow> string \<Rightarrow> action \<Rightarrow> string \<Rightarrow> step" where
  "pending_step n tool tmpl sel a nt =
     (bare_step n tool nt)
       \<lparr> args_template := Some tmpl, selector_hint := Some sel, original_action := Some a,
         locator_status := Some ''pending'' \<rparr>"

text \<open>
  \<open>if (!snapshotted.has(currentUrl)) { steps.push(snapshot); snapshotted.add(currentUrl) }\<close>:
  the steps pushed, the next seq and the set afterwards.
\<close>

definition ensureSnapshot ::
  "string \<Rightarrow> rat \<Rightarrow> string set \<Rightarrow> string \<Rightarrow> step list \<times> rat \<times> string set" where
  "ensureSnapshot nt n snapshotted currentUrl =
     (if currentUrl \<notin> snapshotted
      then ([snapshot_step n nt], n + 1, insert currentUrl snapshotted)
      else ([], n, snapshotted))"

text \<open>
  \<open>actionToSteps(action, seq, snapshotted, currentUrl)\<close> with the global \<open>baseUrl\<close> as a
  parameter. The result is \<open>steps\<close>, \<open>nextSeq\<close>, the set \<open>snapshotted\<close> as the call
  leaves it (the source mutates the caller's set) and \<open>currentUrl\<close>.
\<close>

fun actionToSteps ::
  "string \<Rightarrow> action \<Rightarrow> rat \<Rightarrow> string set \<Rightarrow> string \<Rightarrow> step list \<times> rat \<times> string set \<times> string" where
  "actionToSteps baseUrl (Navigate u) n snapshotted currentUrl =
     (let url = (if startsWith u ''{{'' then baseUrl else u) in
      ([(bare_step n ''browser_navigate'' (''Navigate to '' @ url)) \<lparr> args := Some (UrlArgs url) \<rparr>,
        snapshot_step (n + 1) ''Capture accessibility snapshot to resolve element refs''],
       n + 2, insert url snapshotted, url))"
| "actionToSteps baseUrl (Fill sel v) n snapshotted currentUrl =
     (let (pre, n1, snap1) =
            ensureSnapshot ''Snapshot before fill (auto-inserted)'' n snapshotted currentUrl
      in (pre @ [pending_step n1 ''browser_fill_form''
                   (FieldsTemplate [\<lparr> element = selectorToDescription sel, ref = ref_placeholder,
                                      fvalue = v \<rparr>])
                   sel (Fill sel v) (''Fill '' @ quoted sel @ '' with '' @ quoted v)],
          n1 + 1, snap1, currentUrl))"
| "actionToSteps baseUrl (Click sel) n snapshotted currentUrl =
     (let (pre, n1, snap1) =
            ensureSnapshot ''Snapshot before click (auto-inserted)'' n snapshotted currentUrl
      in (pre @ [pending_step n1 ''browser_click''
                   (ElementTemplate (selectorToDescription sel) ref_placeholder)
                   sel (Click sel) (''Click '' @ quoted sel)],
          n1 + 1, snap1 - {currentUrl}, currentUrl))"
| "actionToSteps baseUrl (Clear sel) n snapshotted currentUrl =
     (let (pre, n1, snap1) =
            ensureSnapshot ''Snapshot before clear (auto-inserted)'' n snapshotted currentUrl
      in (pre @ [pending_step n1 ''browser_fill_form''
                   (FieldsTemplate [\<lparr> element = selectorToDescription sel, ref = ref_placeholder,
                                      fvalue = [] \<rparr>])
                   sel (Clear sel) (''Clear '' @ quoted sel)],
          n1 + 1, snap1, currentUrl))"
| "actionToSteps baseUrl (Wait sel) n snapshotted currentUrl =
     ([(bare_step n ''browser_wait_for'' (''Wait for '' @ quoted sel @ '' to appear''))
         \<lparr> args := Some (TimeArgs 2000), selector_hint := Some sel,
           original_action := Some (Wait sel) \<rparr>],
      n + 1, snapshotted - {currentUrl}, currentUrl)"
| "actionToSteps baseUrl (AssertText sel expected) n snapshotted currentUrl =
     ([(bare_step n ''browser_verify_text_visible'' (''Assert text visible: '' @ quoted expected))
         \<lparr> args := Some (TextArgs expected), original_action := Some (AssertText sel expected),
           locator_status := Some ''pending'' \<rparr>],
      n + 1, snapshotted, currentUrl)"
| "actionToSteps baseUrl (GetText sel) n snapshotted currentUrl =
     (let (pre, n1, snap1) =
            ensureSnapshot ''Snapshot to read text content (auto-inserted)'' n snapshotted currentUrl
      in (pre @ [(bare_step n1 ''browser_snapshot''
                    (''Read text from '' @ quoted sel @ '' '' @ [CHR 0xE2, CHR 0x80, CHR 0x94]
                     @ '' verify in snapshot output''))
                   \<lparr> args := Some EmptyArgs, selector_hint := Some sel,
                     original_action := Some (GetText sel) \<rparr>],
          n1 + 1, snap1, currentUrl))"
| "actionToSteps baseUrl (AssertTrue e) n snapshotted currentUrl =
     ([(bare_step n ''browser_evaluate'' (''assert_true: '' @ e))
         \<lparr> args := Some (FunctionArgs (''() => !!('' @ e @ '')'')),
           original_action := Some (AssertTrue e) \<rparr>],
      n + 1, snapshotted, currentUrl)"
| "actionToSteps baseUrl (AssertFalse e) n snapshotted currentUrl =
     ([(bare_step n ''browser_evaluate'' (''assert_false: '' @ e))
         \<lparr> args := Some (FunctionArgs (''() => !!('' @ e @ '')'')),
           original_action := Some (AssertFalse e) \<rparr>],
      n + 1, snapshotted, currentUrl)"
| "actionToSteps baseUrl (CountElements sel) n snapshotted currentUrl =
     ([(bare_step n ''browser_evaluate'' (''Count elements matching '' @ quoted sel))
         \<lparr> args := Some (FunctionArgs
             (''() => document.querySelectorAll('' @ [CHR 0x27] @ sel @ [CHR 0x27] @ '').length'')),
           selector_hint := Some sel, original_action := Some (CountElements sel) \<rparr>],
      n + 1, snapshotted, currentUrl)"
| "actionToSteps baseUrl (Other t) n snapshotted currentUrl =
     ([(bare_step n ''/* unknown */'' (''Unhandled action type: '' @ t))
         \<lparr> original_action := Some (Other t), skipped := True \<rparr>],
      n + 1, snapshotted, currentUrl)"

text \<open>
  The \<open>for (const action of method.actions)\<close> loop, from the state (steps so far, seq,
  snapshotted, currentUrl) it starts an iteration in to the state it ends in.
\<close>

fun compileLoop ::
  "string \<Rightarrow> action list \<Rightarrow> step list \<times> rat \<times> string set \<times> string
     \<Rightarrow> step list \<times> rat \<times> string set \<times> string" where
  "compileLoop baseUrl [] st = st"
| "compileLoop baseUrl (a # as) (playwrightSteps, n, snapshotted, currentUrl) =
     (let (steps, nextSeq, snap1, nextUrl) = actionToSteps baseUrl a n snapshotted currentUrl
      in compileLoop baseUrl as (playwrightSteps @ steps, nextSeq, snap1, nextUrl))"

text \<open>The state the loop starts in: no steps, \<open>seq = 1\<close>, an empty set, \<open>currentUrl = ""\<close>.\<close>

definition compileActions :: "string \<Rightarrow> action list \<Rightarrow> step list \<times> rat \<times> string set \<times> string" where
  "compileActions baseUrl as = compileLoop baseUrl as ([], 1, {}, [])"

text \<open>\<open>playwrightSteps.forEach((s, i) => (s.seq = i + 1))\<close>\<close>

definition renumber :: "step list \<Rightarrow> step list" where
  "renumber steps = map (\<lambda>(i, s). s \<lparr> seq := of_nat i + 1 \<rparr>) (enumerate 0 steps)"

definition autoNavigate :: "string \<Rightarrow> step" where
  "autoNavigate baseUrl =
     (bare_step (1 / 10) ''browser_navigate''
        ''Auto-inserted: Navigate to base URL (no explicit navigate in Selenium code)'')
       \<lparr> args := Some (UrlArgs baseUrl) \<rparr>"

definition autoSnapshot :: step where
  "autoSnapshot = snapshot_step (2 / 10) ''Auto-inserted: Initial snapshot''"

definition hasNavigate :: "action list \<Rightarrow> bool" where
  "hasNavigate as = list_ex (\<lambda>a. atype a = ''navigate'') as"

text \<open>The steps of one method: the loop, then the post-pass.\<close>

definition compileSteps :: "string \<Rightarrow> action list \<Rightarrow> step list" where
  "compileSteps baseUrl as =
     (let playwrightSteps = fst (compileActions baseUrl as) in
      if \<not> hasNavigate as \<and> length as > 0
      then renumber (autoNavigate baseUrl # autoSnapshot # playwrightSteps)
      else playwrightSteps)"

record method_plan =
  plan_name :: string
  total_steps :: nat
  playwright_steps :: "step list"
  result_status :: string

definition compileMethod :: "string \<Rightarrow> test_method \<Rightarrow> method_plan" where
  "compileMethod baseUrl method =
     (let playwrightSteps = compileSteps baseUrl (actions method) in
      \<lparr> plan_name = name method, total_steps = length playwrightSteps,
        playwright_steps = playwrightSteps, result_status = ''pending'' \<rparr>)"

datatype bridge_error = NoTestMethods

text \<open>
  \<open>plan.test_methods\<close>; the script exits with an error before it when \<open>testMethods\<close> is
  empty.
\<close>

definition test_methods :: "string \<Rightarrow> test_method list \<Rightarrow> bridge_error + method_plan list" where
  "test_methods baseUrl testMethods =
     (if testMethods = [] then Inl NoTestMethods
      else Inr (map (compileMethod baseUrl) testMethods))"

section \<open>Notions used to state the properties\<close>

text \<open>The steps have the seq values \<open>n\<close>, \<open>n + 1\<close>, ... in order.\<close>

definition seqFrom :: "rat \<Rightarrow> step list \<Rightarrow> bool" where
  "seqFrom n steps = (map seq steps = map (\<lambda>i. n + of_nat i) [0..<length steps])"

text \<open>The \<open>selector\<close> field of an action, where its type has one.\<close>

fun selector_of :: "action \<Rightarrow> string option" where
  "selector_of (Fill sel v) = Some sel"
| "selector_of (Clear sel) = Some sel"
| "selector_of (Click sel) = Some sel"
| "selector_of (GetText sel) = Some sel"
| "selector_of (AssertText sel expected) = Some sel"
| "selector_of (Wait sel) = Some sel"
| "selector_of (CountElements sel) = Some sel"
| "selector_of a = None"

text \<open>The \<open>element\<close> and the \<open>ref\<close> entries of an argument template.\<close>

fun template_elements :: "args_template \<Rightarrow> string list" where
  "template_elements (FieldsTemplate fs) = map element fs"
| "template_elements (ElementTemplate e r) = [e]"

fun template_refs :: "args_template \<Rightarrow> string list" where
  "template_refs (FieldsTemplate fs) = map ref fs"
| "template_refs (ElementTemplate e r) = [r]"

text \<open>
  A primary step carrying the selector description, the ref placeholder, the original
  action, the selector hint and the pending marker.
\<close>

definition carries_pending :: "action \<Rightarrow> string \<Rightarrow> step \<Rightarrow> bool" where
  "carries_pending a sel s =
     (map_option template_elements (args_template s) = Some [selectorToDescription sel] \<and>
      map_option template_refs (args_template s) = Some [ref_placeholder] \<and>
      original_action s = Some a \<and>
      selector_hint s = Some sel \<and>
      locator_status s = Some ''pending'')"

text \<open>A step whose argument template holds the ref placeholder.\<close>

definition has_placeholder :: "step \<Rightarrow> bool" where
  "has_placeholder s =
     (case args_template s of None \<Rightarrow> False | Some t \<Rightarrow> ref_placeholder \<in> set (template_refs t))"

text \<open>
  The step records the action as its original action, its selector as the hint, and is
  pending.
\<close>

definition hint_matches :: "action \<Rightarrow> step \<Rightarrow> bool" where
  "hint_matches a s =
     (original_action s = Some a \<and> selector_hint s \<noteq> None \<and> selector_hint s = selector_of a
      \<and> locator_status s = Some ''pending'')"

text \<open>
  The position of an action's type in the order of the recognizer's ten loops.
\<close>

fun kind_rank :: "action \<Rightarrow> nat" where
  "kind_rank (Navigate u) = 0"
| "kind_rank (Fill sel v) = 1"
| "kind_rank (Clear sel) = 2"
| "kind_rank (Click sel) = 3"
| "kind_rank (GetText sel) = 4"
| "kind_rank (AssertText sel expected) = 5"
| "kind_rank (AssertTrue e) = 6"
| "kind_rank (AssertFalse e) = 7"
| "kind_rank (Wait sel) = 8"
| "kind_rank (CountElements sel) = 9"
| "kind_rank (Other t) = 10"

text \<open>The patterns of the ten loops.\<close>

definition recognizerPatterns :: "re list" where
  "recognizerPatterns = [navigateRe, fillRe, clearRe, clickRe, getTextRe, assertEqualsRe,
                         assertTrueRe, assertFalseRe, waitRe, countRe]"

text \<open>A method whose body holds a closing brace inside a string literal.\<close>

definition braceInString :: string where
  "braceInString = ''@Test void t(){s('' @ quoted ''}'' @ '');f();}''"

text \<open>A body with a click before a navigation.\<close>

definition clickThenGet :: string where
  "clickThenGet = ''{d.findElement(By.id('' @ quoted ''b'' @ '')).click();driver.get('' @ quoted ''u''
                    @ '');}''"

text \<open>
  The words a pattern can match, whatever comes before and after: every match of the
  backtracking matcher consumes one of them.
\<close>

primrec lang :: "re \<Rightarrow> string set" where
  "lang Eps = {[]}"
| "lang (Cls p) = {[x] | x. p x}"
| "lang (Seq a b) = {u @ v | u v. u \<in> lang a \<and> v \<in> lang b}"
| "lang (Alt a b) = lang a \<union> lang b"
| "lang (Star a) = {concat us | us. set us \<subseteq> lang a}"
| "lang (LazyStar a) = {concat us | us. set us \<subseteq> lang a}"
| "lang (Grp n a) = lang a"

text \<open>
  Every result of the list stops in front of a character other than \<open>q\<close>, that is,
  inside a run of such characters.
\<close>

definition inside :: "char \<Rightarrow> (string \<times> caps) list \<Rightarrow> bool" where
  "inside q R = (\<forall>t \<in> set R. fst t \<noteq> [] \<and> hd (fst t) \<noteq> q)"

text \<open>The locator expression \<open>By.id("v")\<close>, for the locator name \<open>k\<close> and the raw value \<open>v\<close>.\<close>

definition locator :: "string \<Rightarrow> string \<Rightarrow> string" where
  "locator k v = k @ ''('' @ quoted v @ '')''"

section \<open>Plan Compiler: sequence numbers\<close>

lemma seqFrom_Nil: "seqFrom n []"
  by (simp add: seqFrom_def)

lemma seqFrom_Cons: "seqFrom n (s # steps) = (seq s = n \<and> seqFrom (n + 1) steps)"
proof -
  have "map (\<lambda>i. n + of_nat i) [0..<Suc (length steps)]
        = n # map (\<lambda>i. n + 1 + of_nat i) [0..<length steps]"
    by (simp add: upt_conv_Cons map_Suc_upt [symmetric] add.assoc add.commute del: upt_Suc)
  then show ?thesis by (simp add: seqFrom_def)
qed

lemma seqFrom_append:
  "seqFrom n (xs @ ys) = (seqFrom n xs \<and> seqFrom (n + of_nat (length xs)) ys)"
  by (induction xs arbitrary: n) (auto simp: seqFrom_Nil seqFrom_Cons add.assoc add.commute)

lemma ensureSnapshot_seq:
  "ensureSnapshot nt n snap cur = (pre, n1, snap1) \<Longrightarrow>
     seqFrom n pre \<and> n1 = n + of_nat (length pre)"
  by (auto simp: ensureSnapshot_def seqFrom_Nil seqFrom_Cons snapshot_step_def bare_step_def
           split: if_splits)

lemma actionToSteps_seq:
  "actionToSteps baseUrl a n snap cur = (steps, n', snap', cur') \<Longrightarrow>
     seqFrom n steps \<and> n' = n + of_nat (length steps)"
  by (cases a)
     (auto simp: seqFrom_Nil seqFrom_Cons seqFrom_append snapshot_step_def bare_step_def
                 pending_step_def Let_def
           split: prod.splits dest!: ensureSnapshot_seq)

lemma compileLoop_seq:
  "compileLoop baseUrl as (ps, n, snap, cur) = (ps', n', snap', cur') \<Longrightarrow>
   seqFrom m ps \<Longrightarrow> n = m + of_nat (length ps) \<Longrightarrow>
   seqFrom m ps' \<and> n' = m + of_nat (length ps')"
proof (induction as arbitrary: ps n snap cur)
  case Nil
  then show ?case by auto
next
  case (Cons a as)
  obtain steps n1 snap1 cur1 where a: "actionToSteps baseUrl a n snap cur = (steps, n1, snap1, cur1)"
    by (metis prod_cases4)
  from actionToSteps_seq [OF a] have s: "seqFrom n steps" and n1: "n1 = n + of_nat (length steps)"
    by simp_all
  from Cons.prems(1) a have loop: "compileLoop baseUrl as (ps @ steps, n1, snap1, cur1) = (ps', n', snap', cur')"
    by simp
  have "seqFrom m (ps @ steps)"
    using Cons.prems(2,3) s by (simp add: seqFrom_append)
  moreover have "n1 = m + of_nat (length (ps @ steps))"
    using n1 Cons.prems(3) by simp
  ultimately show ?case using Cons.IH [OF loop] by simp
qed

lemma compileActions_seq: "seqFrom 1 (fst (compileActions baseUrl as))"
proof -
  obtain ps' n' snap' cur' where l: "compileLoop baseUrl as ([], 1, {}, []) = (ps', n', snap', cur')"
    by (metis prod_cases4)
  from compileLoop_seq [OF l, of 1] show ?thesis
    by (simp add: compileActions_def l seqFrom_Nil)
qed

lemma renumber_seq: "seqFrom 1 (renumber steps)"
  unfolding seqFrom_def
  by (rule nth_equalityI) (simp_all add: renumber_def nth_enumerate_eq add.commute)

lemma compileSteps_seq: "seqFrom 1 (compileSteps baseUrl as)"
  by (simp add: compileSteps_def Let_def renumber_seq compileActions_seq)

lemma seqFrom_1: "seqFrom 1 steps = (map seq steps = map of_nat [1..<Suc (length steps)])"
proof -
  have "map (\<lambda>i. 1 + of_nat i) [0..<length steps] = map (of_nat :: nat \<Rightarrow> rat) [1..<Suc (length steps)]"
    by (rule nth_equalityI) (simp_all add: add.commute del: upt_Suc)
  then show ?thesis by (simp add: seqFrom_def)
qed

lemma hasNavigate_iff: "hasNavigate as = (\<exists>a \<in> set as. atype a = ''navigate'')"
  by (simp add: hasNavigate_def list_ex_iff)

lemma renumber_length: "length (renumber steps) = length steps"
  by (simp add: renumber_def)

lemma renumber_nth: "i < length steps \<Longrightarrow> renumber steps ! i = (steps ! i) \<lparr> seq := of_nat i + 1 \<rparr>"
  by (simp add: renumber_def nth_enumerate_eq)

section \<open>Plan Compiler: steps that wait for a ref\<close>

lemma actionToSteps_hint:
  "actionToSteps baseUrl a n snap cur = (steps, n', snap', cur') \<Longrightarrow> s \<in> set steps \<Longrightarrow>
     has_placeholder s \<Longrightarrow> hint_matches a s"
  by (cases a)
     (auto simp: has_placeholder_def hint_matches_def ensureSnapshot_def pending_step_def
                 bare_step_def snapshot_step_def split: if_splits)

lemma compileLoop_hint:
  "compileLoop baseUrl as (ps, n, snap, cur) = (ps', n', snap', cur') \<Longrightarrow>
   s \<in> set ps' \<Longrightarrow> has_placeholder s \<Longrightarrow> s \<notin> set ps \<Longrightarrow> \<exists>a \<in> set as. hint_matches a s"
proof (induction as arbitrary: ps n snap cur)
  case Nil
  then show ?case by auto
next
  case (Cons a as)
  obtain steps n1 snap1 cur1 where a: "actionToSteps baseUrl a n snap cur = (steps, n1, snap1, cur1)"
    by (metis prod_cases4)
  from Cons.prems(1) a have loop: "compileLoop baseUrl as (ps @ steps, n1, snap1, cur1) = (ps', n', snap', cur')"
    by simp
  show ?case
  proof (cases "s \<in> set steps")
    case True
    with actionToSteps_hint [OF a] Cons.prems(3) show ?thesis by auto
  next
    case False
    with Cons.prems(4) have "s \<notin> set (ps @ steps)" by simp
    from Cons.IH [OF loop Cons.prems(2,3) this] show ?thesis by auto
  qed
qed

lemma renumber_set:
  "s \<in> set (renumber steps) \<Longrightarrow> \<exists>s0 \<in> set steps. \<exists>k. s = s0 \<lparr> seq := k \<rparr>"
  by (auto simp: renumber_def in_set_enumerate_eq)

lemma has_placeholder_seq: "has_placeholder (s \<lparr> seq := k \<rparr>) = has_placeholder s"
  by (simp add: has_placeholder_def)

lemma hint_matches_seq: "hint_matches a (s \<lparr> seq := k \<rparr>) = hint_matches a s"
  by (simp add: hint_matches_def)

lemma auto_steps_no_placeholder:
  "\<not> has_placeholder (autoNavigate baseUrl)" "\<not> has_placeholder autoSnapshot"
  by (simp_all add: has_placeholder_def autoNavigate_def autoSnapshot_def bare_step_def
        snapshot_step_def)

lemma compileSteps_hint:
  assumes "s \<in> set (compileSteps baseUrl as)" and "has_placeholder s"
  shows "\<exists>a \<in> set as. hint_matches a s"
proof -
  obtain ps' n' snap' cur' where l: "compileLoop baseUrl as ([], 1, {}, []) = (ps', n', snap', cur')"
    by (metis prod_cases4)
  have loop: "\<exists>a \<in> set as. hint_matches a t" if "t \<in> set ps'" "has_placeholder t" for t
    using compileLoop_hint [OF l that] by simp
  show ?thesis
  proof (cases "\<not> hasNavigate as \<and> length as > 0")
    case True
    then have "s \<in> set (renumber (autoNavigate baseUrl # autoSnapshot # ps'))"
      using assms(1) by (simp add: compileSteps_def compileActions_def l)
    then obtain s0 k where s0: "s0 \<in> set (autoNavigate baseUrl # autoSnapshot # ps')"
      and s: "s = s0 \<lparr> seq := k \<rparr>"
      using renumber_set by blast
    from assms(2) s have hp: "has_placeholder s0" by (simp add: has_placeholder_seq)
    with s0 auto_steps_no_placeholder have "s0 \<in> set ps'" by auto
    from loop [OF this hp] s show ?thesis by (simp add: hint_matches_seq)
  next
    case False
    then have "s \<in> set ps'"
      using assms(1) by (auto simp: compileSteps_def compileActions_def l)
    from loop [OF this assms(2)] show ?thesis .
  qed
qed

section \<open>Plan Compiler: the claims\<close>

text \<open>
  C3, as stated, fails for get_text: the primary step of a get_text action is a
  browser_snapshot step without an argument template and without a locator status.
\<close>

theorem C3_get_text_not_pending:
  "locator_status (last (fst (actionToSteps ''http://b'' (GetText ''#x'') 1 {} ''''))) \<noteq> Some ''pending''
   \<and> args_template (last (fst (actionToSteps ''http://b'' (GetText ''#x'') 1 {} ''''))) = None"
  by (simp add: ensureSnapshot_def bare_step_def snapshot_step_def)

text \<open>
  C3 (amended): for an action of type click, fill, clear or get_text the last step emitted
  is the primary step; it records the original action and its selector as the hint. For
  click, fill and clear it carries the selector description, the ref placeholder and
  \<open>locator_status: "pending"\<close>; for get_text it is a browser_snapshot step with neither.
  If the current URL is not snapshot-fresh, exactly one snapshot step is emitted immediately
  before it, and the URL is fresh afterwards for fill, clear and get_text; click leaves it
  not fresh.
\<close>

theorem C3_primary_step:
  assumes "a \<in> {Click sel, Fill sel v, Clear sel, GetText sel}"
    and "actionToSteps baseUrl a n snapshotted currentUrl = (steps, nextSeq, snapshotted', currentUrl')"
  shows "steps \<noteq> []
     \<and> original_action (last steps) = Some a
     \<and> selector_hint (last steps) = Some sel
     \<and> (a \<noteq> GetText sel \<longrightarrow> carries_pending a sel (last steps))
     \<and> (a = GetText sel \<longrightarrow> mcp_tool (last steps) = ''browser_snapshot''
            \<and> args_template (last steps) = None \<and> locator_status (last steps) = None)
     \<and> (currentUrl \<notin> snapshotted \<longrightarrow>
            length steps = 2 \<and> mcp_tool (hd steps) = ''browser_snapshot''
            \<and> snapshot_marker (hd steps) \<and> seq (hd steps) = n \<and> seq (last steps) = n + 1
            \<and> nextSeq = n + 2)
     \<and> (currentUrl \<in> snapshotted \<longrightarrow> length steps = 1 \<and> seq (last steps) = n \<and> nextSeq = n + 1)
     \<and> snapshotted' = (if a = Click sel then snapshotted - {currentUrl}
                        else insert currentUrl snapshotted)
     \<and> currentUrl' = currentUrl"
  using assms
  by (auto simp: ensureSnapshot_def carries_pending_def pending_step_def bare_step_def
                 snapshot_step_def split: if_splits)

theorem C3_primary_step_witness:
  "carries_pending (Click ''#go'') ''#go'' (last (fst (actionToSteps ''http://b'' (Click ''#go'') 1 {} '''')))
   \<and> length (fst (actionToSteps ''http://b'' (Click ''#go'') 1 {} '''')) = 2"
  using C3_primary_step [of "Click ''#go''" "''#go''" "''v''" "''http://b''" 1 "{}" "''''"
      "fst (actionToSteps ''http://b'' (Click ''#go'') 1 {} '''')"
      "fst (snd (actionToSteps ''http://b'' (Click ''#go'') 1 {} ''''))"
      "fst (snd (snd (actionToSteps ''http://b'' (Click ''#go'') 1 {} '''')))"
      "snd (snd (snd (actionToSteps ''http://b'' (Click ''#go'') 1 {} '''')))"]
  by simp

text \<open>
  C4: the actions navigate(url literal), fill, click compile to exactly four steps, navigate,
  snapshot, fill, click, with no further snapshot, seq 1 to 4, and the URL is not
  snapshot-fresh in the final state.
\<close>

theorem C4_navigate_fill_click:
  assumes "compileActions baseUrl [Navigate url, Fill selX v, Click selY]
             = (steps, nextSeq, snapshotted, currentUrl)"
    and "\<not> startsWith url ''{{''"
  shows "compileSteps baseUrl [Navigate url, Fill selX v, Click selY] = steps
     \<and> map mcp_tool steps
         = [''browser_navigate'', ''browser_snapshot'', ''browser_fill_form'', ''browser_click'']
     \<and> map seq steps = [1, 2, 3, 4]
     \<and> map snapshot_marker steps = [False, True, False, False]
     \<and> map args steps = [Some (UrlArgs url), Some EmptyArgs, None, None]
     \<and> map original_action steps = [None, None, Some (Fill selX v), Some (Click selY)]
     \<and> currentUrl = url
     \<and> url \<notin> snapshotted"
  using assms
  by (auto simp: compileActions_def compileSteps_def hasNavigate_def ensureSnapshot_def
                 pending_step_def bare_step_def snapshot_step_def)

theorem C4_navigate_fill_click_witness:
  "map seq (compileSteps ''http://b'' [Navigate ''http://a/login'', Fill ''#user'' ''v'', Click ''#go''])
     = [1, 2, 3, 4]
   \<and> ''http://a/login'' \<notin> fst (snd (snd (compileActions ''http://b''
         [Navigate ''http://a/login'', Fill ''#user'' ''v'', Click ''#go''])))"
  using C4_navigate_fill_click [of "''http://b''" "''http://a/login''" "''#user''" "''v''" "''#go''"
      "fst (compileActions ''http://b'' [Navigate ''http://a/login'', Fill ''#user'' ''v'', Click ''#go''])"
      "fst (snd (compileActions ''http://b'' [Navigate ''http://a/login'', Fill ''#user'' ''v'', Click ''#go'']))"
      "fst (snd (snd (compileActions ''http://b'' [Navigate ''http://a/login'', Fill ''#user'' ''v'', Click ''#go''])))"
      "snd (snd (snd (compileActions ''http://b'' [Navigate ''http://a/login'', Fill ''#user'' ''v'', Click ''#go''])))"]
  by (simp add: startsWith_def)

text \<open>
  C5: for a non-empty action list without a navigate action, the compiled steps are the
  auto-inserted navigation to the base URL, the auto-inserted snapshot, then the steps of
  the loop, renumbered from 1; a single click gives four steps with seq 1 to 4.
\<close>

theorem C5_auto_navigate:
  assumes "as \<noteq> []" and "\<forall>a \<in> set as. atype a \<noteq> ''navigate''"
  shows "length (compileSteps baseUrl as) = length (fst (compileActions baseUrl as)) + 2
     \<and> compileSteps baseUrl as ! 0 = (autoNavigate baseUrl) \<lparr> seq := 1 \<rparr>
     \<and> compileSteps baseUrl as ! 1 = autoSnapshot \<lparr> seq := 2 \<rparr>
     \<and> (\<forall>i < length (fst (compileActions baseUrl as)).
           compileSteps baseUrl as ! (i + 2)
             = (fst (compileActions baseUrl as) ! i) \<lparr> seq := of_nat (i + 3) \<rparr>)
     \<and> map seq (compileSteps baseUrl as) = map of_nat [1..<Suc (length (compileSteps baseUrl as))]
     \<and> map mcp_tool (compileSteps baseUrl [Click sel])
          = [''browser_navigate'', ''browser_snapshot'', ''browser_snapshot'', ''browser_click'']
     \<and> map seq (compileSteps baseUrl [Click sel]) = [1, 2, 3, 4]"
proof -
  let ?loop = "fst (compileActions baseUrl as)"
  have eq: "compileSteps baseUrl as = renumber (autoNavigate baseUrl # autoSnapshot # ?loop)"
    using assms by (simp add: compileSteps_def hasNavigate_iff)
  have len: "length (compileSteps baseUrl as) = length ?loop + 2"
    by (simp add: eq renumber_length)
  have n0: "compileSteps baseUrl as ! 0 = (autoNavigate baseUrl) \<lparr> seq := 1 \<rparr>"
    by (simp add: eq renumber_nth)
  have n1: "compileSteps baseUrl as ! 1 = autoSnapshot \<lparr> seq := 2 \<rparr>"
    by (simp add: eq renumber_nth)
  have rest: "\<forall>i < length ?loop.
      compileSteps baseUrl as ! (i + 2) = (?loop ! i) \<lparr> seq := of_nat (i + 3) \<rparr>"
    by (simp add: eq renumber_nth)
  have dense: "map seq (compileSteps baseUrl as)
      = map of_nat [1..<Suc (length (compileSteps baseUrl as))]"
    using compileSteps_seq [of baseUrl as] by (simp only: seqFrom_1)
  have click: "map mcp_tool (compileSteps baseUrl [Click sel])
          = [''browser_navigate'', ''browser_snapshot'', ''browser_snapshot'', ''browser_click'']"
    by (simp add: compileSteps_def compileActions_def hasNavigate_def ensureSnapshot_def
          renumber_def autoNavigate_def autoSnapshot_def pending_step_def bare_step_def
          snapshot_step_def)
  have clickseq: "map seq (compileSteps baseUrl [Click sel]) = [1, 2, 3, 4]"
    by (simp add: compileSteps_def compileActions_def hasNavigate_def ensureSnapshot_def
          renumber_def autoNavigate_def autoSnapshot_def pending_step_def bare_step_def
          snapshot_step_def)
  from len n0 n1 rest dense click clickseq show ?thesis by blast
qed

theorem C5_auto_navigate_witness:
  "map mcp_tool (compileSteps ''http://b'' [Wait ''#a'', Fill ''#b'' ''v''])
     = [''browser_navigate'', ''browser_snapshot'', ''browser_wait_for'', ''browser_snapshot'',
        ''browser_fill_form'']
   \<and> map seq (compileSteps ''http://b'' [Wait ''#a'', Fill ''#b'' ''v'']) = [1, 2, 3, 4, 5]
   \<and> args (compileSteps ''http://b'' [Wait ''#a'', Fill ''#b'' ''v''] ! 0) = Some (UrlArgs ''http://b'')"
proof -
  have h1: "[Wait ''#a'', Fill ''#b'' ''v''] \<noteq> []" by simp
  have h2: "\<forall>a \<in> set [Wait ''#a'', Fill ''#b'' ''v'']. atype a \<noteq> ''navigate''" by simp
  show ?thesis
    using C5_auto_navigate [OF h1 h2, of "''http://b''" "''#x''"]
    by (simp add: compileSteps_def compileActions_def hasNavigate_def ensureSnapshot_def
          renumber_def autoNavigate_def autoSnapshot_def pending_step_def bare_step_def
          snapshot_step_def)
qed

text \<open>
  C6: for every non-empty list of test methods (the script refuses an empty one) and every
  base URL the plan is built, and in each method's steps the seq values are exactly
  1, ..., n, without gap or duplicate; a method without actions has no steps.
\<close>

theorem C6_seq_dense:
  assumes "testMethods \<noteq> []"
  shows "\<exists>plans. test_methods baseUrl testMethods = Inr plans
     \<and> length plans = length testMethods
     \<and> (\<forall>i < length testMethods.
           plan_name (plans ! i) = name (testMethods ! i)
         \<and> playwright_steps (plans ! i) = compileSteps baseUrl (actions (testMethods ! i))
         \<and> map seq (playwright_steps (plans ! i))
             = map of_nat [1..<Suc (length (playwright_steps (plans ! i)))]
         \<and> distinct (map seq (playwright_steps (plans ! i)))
         \<and> total_steps (plans ! i) = length (playwright_steps (plans ! i))
         \<and> (actions (testMethods ! i) = [] \<longrightarrow> playwright_steps (plans ! i) = []))"
proof -
  have dense: "map seq (compileSteps baseUrl as) = map of_nat [1..<Suc (length (compileSteps baseUrl as))]"
    for as
    using compileSteps_seq [of baseUrl as] by (simp only: seqFrom_1)
  have inj: "inj_on (of_nat :: nat \<Rightarrow> rat) A" for A
    by (simp add: inj_on_def)
  have dist: "distinct (map seq (compileSteps baseUrl as))" for as
    by (simp only: dense [of as] distinct_map distinct_upt inj) 
  have empty: "compileSteps baseUrl [] = []"
    by (simp add: compileSteps_def compileActions_def)
  show ?thesis
    using assms dense dist empty
    by (simp add: test_methods_def compileMethod_def Let_def)
qed

theorem C6_seq_dense_witness:
  "\<exists>plans. test_methods ''http://b''
       [\<lparr> name = ''empty'', actions = [] \<rparr>, \<lparr> name = ''one'', actions = [Click ''#go''] \<rparr>] = Inr plans
     \<and> map (\<lambda>p. map seq (playwright_steps p)) plans = [[], [1, 2, 3, 4]]"
proof -
  have h: "[\<lparr> name = ''empty'', actions = [] \<rparr>, \<lparr> name = ''one'', actions = [Click ''#go''] \<rparr>] \<noteq> []"
    by simp
  show ?thesis
    using C6_seq_dense [OF h, of "''http://b''"]
    by (simp add: test_methods_def compileMethod_def compileSteps_def compileActions_def
          hasNavigate_def ensureSnapshot_def renumber_def autoNavigate_def autoSnapshot_def
          pending_step_def bare_step_def snapshot_step_def)
qed

text \<open>
  C9: in every compiled plan, a step whose argument template holds the ref placeholder has
  \<open>locator_status: "pending"\<close> and a selector hint equal to the selector of the action it
  was compiled from.
\<close>

theorem C9_placeholder_pending:
  assumes "test_methods baseUrl testMethods = Inr plans"
    and "i < length testMethods"
    and "s \<in> set (playwright_steps (plans ! i))"
    and "args_template s = Some t"
    and "ref_placeholder \<in> set (template_refs t)"
  shows "locator_status s = Some ''pending''
     \<and> (\<exists>a \<in> set (actions (testMethods ! i)). \<exists>sel.
            original_action s = Some a \<and> selector_of a = Some sel \<and> selector_hint s = Some sel)"
proof -
  from assms(1) have plans: "plans = map (compileMethod baseUrl) testMethods"
    by (simp add: test_methods_def split: if_splits)
  with assms(2,3) have s: "s \<in> set (compileSteps baseUrl (actions (testMethods ! i)))"
    by (simp add: compileMethod_def Let_def)
  have "has_placeholder s"
    using assms(4,5) by (simp add: has_placeholder_def)
  from compileSteps_hint [OF s this] show ?thesis
    by (auto simp: hint_matches_def)
qed

theorem C9_placeholder_pending_witness:
  "locator_status (compileSteps ''http://b'' [Fill ''#user'' ''v''] ! 3) = Some ''pending''
   \<and> selector_hint (compileSteps ''http://b'' [Fill ''#user'' ''v''] ! 3) = Some ''#user''"
proof -
  let ?tm = "[\<lparr> name = ''t'', actions = [Fill ''#user'' ''v''] \<rparr>]"
  let ?s = "compileSteps ''http://b'' [Fill ''#user'' ''v''] ! 3"
  let ?t = "FieldsTemplate [\<lparr> element = selectorToDescription ''#user'', ref = ref_placeholder,
                             fvalue = ''v'' \<rparr>]"
  have steps: "compileSteps ''http://b'' [Fill ''#user'' ''v'']
      = [(autoNavigate ''http://b'') \<lparr> seq := 1 \<rparr>, autoSnapshot \<lparr> seq := 2 \<rparr>,
         snapshot_step 3 ''Snapshot before fill (auto-inserted)'',
         pending_step 4 ''browser_fill_form'' ?t ''#user'' (Fill ''#user'' ''v'')
           (''Fill '' @ quoted ''#user'' @ '' with '' @ quoted ''v'')]"
    by (simp add: compileSteps_def compileActions_def hasNavigate_def ensureSnapshot_def
          renumber_def pending_step_def bare_step_def snapshot_step_def)
  have h1: "test_methods ''http://b'' ?tm = Inr (map (compileMethod ''http://b'') ?tm)"
    by (simp add: test_methods_def)
  have h2: "0 < length ?tm" by simp
  have h3: "?s \<in> set (playwright_steps (map (compileMethod ''http://b'') ?tm ! 0))"
    by (simp add: compileMethod_def steps)
  have h4: "args_template ?s = Some ?t"
    by (simp add: steps pending_step_def bare_step_def)
  have h5: "ref_placeholder \<in> set (template_refs ?t)" by simp
  show ?thesis
    using C9_placeholder_pending [OF h1 h2 h3 h4 h5] by auto
qed

section \<open>Extraction: the claims\<close>

lemma matchAllFrom_index:
  "sorted_wrt (<) (map index (matchAllFrom r off s)) \<and>
   (\<forall>m \<in> set (matchAllFrom r off s). off \<le> index m)"
proof (induction r off s rule: matchAllFrom.induct)
  case (1 r off s)
  show ?case
  proof (cases "search r s")
    case None
    then show ?thesis by (subst (1 2) matchAllFrom.simps) simp
  next
    case (Some t)
    obtain i rest c where t: "t = (i, rest, c)" by (metis prod_cases3)
    let ?e = "length s - length rest"
    consider (a) "i < ?e" | (b) "\<not> i < ?e" "i < length s" | (c) "\<not> i < ?e" "\<not> i < length s"
      by blast
    then show ?thesis
    proof cases
      case a
      from "1.IH"(1) [OF Some t [symmetric] refl refl a] a
      show ?thesis
        by (subst (1 2) matchAllFrom.simps) (auto simp: Some t Let_def)
    next
      case b
      from "1.IH"(2) [OF Some t [symmetric] refl refl b] b
      show ?thesis
        by (subst (1 2) matchAllFrom.simps) (auto simp: Some t Let_def)
    next
      case c
      then show ?thesis
        by (subst (1 2) matchAllFrom.simps) (simp add: Some t Let_def)
    qed
  qed
qed

lemma matchAll_sorted: "sorted_wrt (<) (map index (matchAll r s))"
  using matchAllFrom_index [of r 0 s] by (simp add: matchAll_def)

lemma matchAll_no_match: "search r s = None \<Longrightarrow> matchAll r s = []"
  by (simp add: matchAll_def matchAllFrom.simps)

lemmas builder_defs = navigateOf_def fillOf_def clearOf_def clickOf_def getTextOf_def
  assertTextOf_def assertTrueOf_def assertFalseOf_def waitOf_def countOf_def

lemma sorted_map_const: "sorted (map (\<lambda>x. k :: nat) xs)"
  by (induction xs) auto

lemma extract_ranks_sorted: "sorted (map kind_rank (extractActionsFromBody body))"
  by (auto simp: extractActionsFromBody_def sorted_append builder_defs o_def sorted_map_const)

lemma extract_no_other: "a \<in> set (extractActionsFromBody body) \<Longrightarrow> kind_rank a < 10"
  by (auto simp: extractActionsFromBody_def builder_defs)

lemma extract_nothing:
  "\<forall>r \<in> set recognizerPatterns. search r body = None \<Longrightarrow> extractActionsFromBody body = []"
  by (simp add: extractActionsFromBody_def recognizerPatterns_def assertTrueMatches_def
        matchAll_no_match)

lemma assertTrueMatches_sorted: "sorted_wrt (<) (map index (assertTrueMatches body))"
  using matchAll_sorted [of assertTrueRe body]
  by (simp add: assertTrueMatches_def sorted_wrt_map sorted_wrt_filter)

lemma extract_groups_atype:
  "filter (\<lambda>a. atype a = ''navigate'') (extractActionsFromBody body)
     = map navigateOf (matchAll navigateRe body)"
  "filter (\<lambda>a. atype a = ''fill'') (extractActionsFromBody body) = map fillOf (matchAll fillRe body)"
  "filter (\<lambda>a. atype a = ''clear'') (extractActionsFromBody body) = map clearOf (matchAll clearRe body)"
  "filter (\<lambda>a. atype a = ''click'') (extractActionsFromBody body) = map clickOf (matchAll clickRe body)"
  "filter (\<lambda>a. atype a = ''get_text'') (extractActionsFromBody body)
     = map getTextOf (matchAll getTextRe body)"
  "filter (\<lambda>a. atype a = ''assert_text'') (extractActionsFromBody body)
     = map assertTextOf (matchAll assertEqualsRe body)"
  "filter (\<lambda>a. atype a = ''assert_true'') (extractActionsFromBody body)
     = map assertTrueOf (assertTrueMatches body)"
  "filter (\<lambda>a. atype a = ''assert_false'') (extractActionsFromBody body)
     = map assertFalseOf (matchAll assertFalseRe body)"
  "filter (\<lambda>a. atype a = ''wait'') (extractActionsFromBody body) = map waitOf (matchAll waitRe body)"
  "filter (\<lambda>a. atype a = ''count_elements'') (extractActionsFromBody body)
     = map countOf (matchAll countRe body)"
  by (simp_all add: extractActionsFromBody_def filter_map o_def builder_defs)

text \<open>
  C1: the segmenter counts every brace. On a method whose body holds \<open>"}"\<close> the body it
  returns ends at the brace inside the string literal, not at the matching closing brace
  (the text from the opening brace on is printed beside it).
\<close>

theorem C1_brace_in_string_ends_body:
  "splitTestMethods braceInString = [(''t'', ''{s('' @ [dq, CHR ''}''])]
   \<and> drop 14 braceInString = ''{s('' @ quoted ''}'' @ '');f();}''"
  by code_simp

text \<open>
  C2: on the same text the checker takes the brace in the string literal as content and
  finds the braces balanced, while the segmenter takes it as the end of the body; the
  checker's own scan of the segmenter's body ends at depth 1.
\<close>

theorem C2_checker_and_segmenter_diverge:
  "finalDepth braceInString = 0
   \<and> map snd (splitTestMethods braceInString) = [''{s('' @ [dq, CHR ''}'']]
   \<and> finalDepth (''{s('' @ [dq, CHR ''}'']) = 1"
  by code_simp

text \<open>
  C7: the actions come grouped by kind in the order navigate, fill, clear, click, get_text,
  assert_text, assert_true, assert_false, wait, count_elements; the actions of one kind are
  the matches of its pattern in order of increasing position; and a body in which no
  pattern matches gives the empty list.
\<close>

theorem C7_grouped_by_kind:
  "sorted (map kind_rank (extractActionsFromBody body))
   \<and> (\<forall>a \<in> set (extractActionsFromBody body). kind_rank a < 10)
   \<and> filter (\<lambda>a. atype a = ''navigate'') (extractActionsFromBody body)
       = map navigateOf (matchAll navigateRe body)
   \<and> filter (\<lambda>a. atype a = ''fill'') (extractActionsFromBody body)
       = map fillOf (matchAll fillRe body)
   \<and> filter (\<lambda>a. atype a = ''clear'') (extractActionsFromBody body)
       = map clearOf (matchAll clearRe body)
   \<and> filter (\<lambda>a. atype a = ''click'') (extractActionsFromBody body)
       = map clickOf (matchAll clickRe body)
   \<and> filter (\<lambda>a. atype a = ''get_text'') (extractActionsFromBody body)
       = map getTextOf (matchAll getTextRe body)
   \<and> filter (\<lambda>a. atype a = ''assert_text'') (extractActionsFromBody body)
       = map assertTextOf (matchAll assertEqualsRe body)
   \<and> filter (\<lambda>a. atype a = ''assert_true'') (extractActionsFromBody body)
       = map assertTrueOf (assertTrueMatches body)
   \<and> filter (\<lambda>a. atype a = ''assert_false'') (extractActionsFromBody body)
       = map assertFalseOf (matchAll assertFalseRe body)
   \<and> filter (\<lambda>a. atype a = ''wait'') (extractActionsFromBody body)
       = map waitOf (matchAll waitRe body)
   \<and> filter (\<lambda>a. atype a = ''count_elements'') (extractActionsFromBody body)
       = map countOf (matchAll countRe body)
   \<and> (\<forall>r \<in> set recognizerPatterns. sorted_wrt (<) (map index (matchAll r body)))
   \<and> sorted_wrt (<) (map index (assertTrueMatches body))
   \<and> ((\<forall>r \<in> set recognizerPatterns. search r body = None) \<longrightarrow> extractActionsFromBody body = [])"
  using extract_ranks_sorted [of body] extract_no_other [of _ body] extract_groups_atype [of body]
    matchAll_sorted [of _ body] assertTrueMatches_sorted [of body] extract_nothing [of body]
  by blast

theorem C7_grouped_by_kind_witness:
  "extractActionsFromBody clickThenGet = [Navigate ''u'', Click ''#b'']
   \<and> map index (matchAll clickRe clickThenGet) = [3]
   \<and> map index (matchAll navigateRe clickThenGet) = [35]
   \<and> sorted (map kind_rank [Navigate ''u'', Click ''#b''])
   \<and> extractActionsFromBody ''{}'' = []"
proof -
  have e: "extractActionsFromBody clickThenGet = [Navigate ''u'', Click ''#b'']"
    by code_simp
  have i: "map index (matchAll clickRe clickThenGet) = [3]"
    "map index (matchAll navigateRe clickThenGet) = [35]"
    by code_simp+
  have n: "\<forall>r \<in> set recognizerPatterns. search r ''{}'' = None"
    by code_simp
  have s: "sorted (map kind_rank (extractActionsFromBody clickThenGet))"
    using C7_grouped_by_kind [of clickThenGet] by blast
  have z: "extractActionsFromBody ''{}'' = []"
    using C7_grouped_by_kind [of "''{}''"] n by blast
  from s have "sorted (map kind_rank [Navigate ''u'', Click ''#b''])"
    by (simp only: e)
  with e i z show ?thesis by blast
qed

text \<open>
  C10, as stated, fails for the empty test name: it is supplied, no method is named by it,
  and all methods are returned.
\<close>

theorem C10_empty_test_name_returns_all:
  "handleExtractActions [''T.java'' \<mapsto> ''@Test void t(){}''] ''T.java'' (Some '''')
     = Inr [\<lparr> name = ''t'', actions = [] \<rparr>]
   \<and> filter (\<lambda>m. name m = '''') (extractActions ''@Test void t(){}'') = []"
  by code_simp

text \<open>
  C10 (amended): for an existing file and a non-empty test name, the result is the list of
  the extracted methods whose name equals the test name, in order; it is the empty list,
  not an error, when none matches.
\<close>

theorem C10_filter_by_test_name:
  assumes "fs java_path = Some code" and "test_name \<noteq> []"
  shows "handleExtractActions fs java_path (Some test_name)
           = Inr (filter (\<lambda>m. name m = test_name) (extractActions code))
     \<and> ((\<forall>m \<in> set (extractActions code). name m \<noteq> test_name)
          \<longrightarrow> handleExtractActions fs java_path (Some test_name) = Inr [])"
  using assms by (auto simp: handleExtractActions_def Let_def filter_empty_conv)

theorem C10_filter_by_test_name_witness:
  "handleExtractActions [''T.java'' \<mapsto> ''@Test void a(){} @Test void b(){}''] ''T.java'' (Some ''b'')
     = Inr [\<lparr> name = ''b'', actions = [] \<rparr>]
   \<and> handleExtractActions [''T.java'' \<mapsto> ''@Test void a(){} @Test void b(){}''] ''T.java'' (Some ''c'')
     = Inr []"
proof -
  have e: "extractActions ''@Test void a(){} @Test void b(){}''
           = [\<lparr> name = ''a'', actions = [] \<rparr>, \<lparr> name = ''b'', actions = [] \<rparr>]"
    by code_simp
  show ?thesis
    using C10_filter_by_test_name
            [of "[''T.java'' \<mapsto> ''@Test void a(){} @Test void b(){}'']" "''T.java''"
                "''@Test void a(){} @Test void b(){}''" "''b''"]
          C10_filter_by_test_name
            [of "[''T.java'' \<mapsto> ''@Test void a(){} @Test void b(){}'']" "''T.java''"
                "''@Test void a(){} @Test void b(){}''" "''c''"]
    by (simp add: e)
qed

section \<open>Regular expressions: what a match consumes\<close>

lemma star_step: "w \<in> lang a \<Longrightarrow> set us \<subseteq> lang a \<Longrightarrow> \<exists>vs. w @ concat us = concat vs \<and> set vs \<subseteq> lang a"
  by (rule exI [of _ "w # us"]) simp

lemma ms_sound:
  "st' \<in> set (ms r st) \<Longrightarrow> \<exists>w \<in> lang r. fst st = w @ fst st'"
proof (induction r st arbitrary: st' rule: ms.induct)
  case (1 st)
  then show ?case by simp
next
  case (2 p s c)
  then show ?case by (auto split: list.splits if_splits)
next
  case (3 a b st)
  from "3.prems" obtain m where m: "m \<in> set (ms a st)" and s: "st' \<in> set (ms b m)"
    by auto
  from "3.IH"(1) [OF m] obtain u where u: "u \<in> lang a" "fst st = u @ fst m" by blast
  from "3.IH"(2) [OF m s] obtain v where v: "v \<in> lang b" "fst m = v @ fst st'" by blast
  from u v have "u @ v \<in> lang (Seq a b)" "fst st = (u @ v) @ fst st'" by auto
  then show ?case by blast
next
  case (4 a b st)
  from "4.prems" consider (l) "st' \<in> set (ms a st)" | (r) "st' \<in> set (ms b st)"
    by auto
  then show ?case
  proof cases
    case l
    from "4.IH"(1) [OF l] show ?thesis by auto
  next
    case r
    from "4.IH"(2) [OF r] show ?thesis by auto
  qed
next
  case (5 a s c)
  from "5.prems" have "st' \<in> set (concat (map (ms (Star a))
        (filter (\<lambda>st'. length (fst st') < length s) (ms a (s, c)))) @ [(s, c)])"
    by (simp only: ms.simps)
  then consider (stop) "st' = (s, c)"
    | (step) m where "m \<in> set (ms a (s, c))" "length (fst m) < length s" "st' \<in> set (ms (Star a) m)"
    by auto
  then show ?case
  proof cases
    case stop
    have "[] \<in> lang (Star a)" by (simp, rule exI [of _ "[]"], simp)
    with stop show ?thesis by auto
  next
    case step
    from "5.IH"(1) [OF step(1)] obtain u where u: "u \<in> lang a" "s = u @ fst m" by auto
    have "m \<in> set (filter (\<lambda>st'. length (fst st') < length s) (ms a (s, c)))"
      using step by simp
    from "5.IH"(2) [OF this step(3)] obtain us where us: "set us \<subseteq> lang a" "fst m = concat us @ fst st'"
      by auto
    from star_step [OF u(1) us(1)] obtain vs where vs: "u @ concat us = concat vs" "set vs \<subseteq> lang a"
      by blast
    from u us vs have "s = concat vs @ fst st'" by simp
    with vs(2) show ?thesis by auto
  qed
next
  case (6 a s c)
  from "6.prems" have "st' \<in> set ((s, c) # concat (map (ms (LazyStar a))
        (filter (\<lambda>st'. length (fst st') < length s) (ms a (s, c)))))"
    by (simp only: ms.simps)
  then consider (stop) "st' = (s, c)"
    | (step) m where "m \<in> set (ms a (s, c))" "length (fst m) < length s" "st' \<in> set (ms (LazyStar a) m)"
    by auto
  then show ?case
  proof cases
    case stop
    have "[] \<in> lang (LazyStar a)" by (simp, rule exI [of _ "[]"], simp)
    with stop show ?thesis by auto
  next
    case step
    from "6.IH"(1) [OF step(1)] obtain u where u: "u \<in> lang a" "s = u @ fst m" by auto
    have "m \<in> set (filter (\<lambda>st'. length (fst st') < length s) (ms a (s, c)))"
      using step by simp
    from "6.IH"(2) [OF this step(3)] obtain us where us: "set us \<subseteq> lang a" "fst m = concat us @ fst st'"
      by auto
    from star_step [OF u(1) us(1)] obtain vs where vs: "u @ concat us = concat vs" "set vs \<subseteq> lang a"
      by blast
    from u us vs have "s = concat vs @ fst st'" by simp
    with vs(2) show ?thesis by auto
  qed
next
  case (7 n a s c)
  from "7.prems" obtain m where "m \<in> set (ms a (s, c))" "fst st' = fst m" by auto
  with "7.IH" [of m] show ?case by auto
qed

lemma matchAt_sound: "matchAt r s = Some (rest, c) \<Longrightarrow> \<exists>w \<in> lang r. s = w @ rest"
proof -
  assume "matchAt r s = Some (rest, c)"
  then have "(rest, c) \<in> set (ms r (s, Map.empty))"
    by (auto simp: matchAt_def split: list.splits)
  from ms_sound [OF this] show ?thesis by simp
qed

lemma search_sound:
  "search r s = Some (i, rest, c) \<Longrightarrow> \<exists>pre. \<exists>w \<in> lang r. s = pre @ w @ rest"
proof (induction s arbitrary: i)
  case Nil
  then have "matchAt r [] = Some (rest, c)" by (auto split: option.splits)
  from matchAt_sound [OF this] show ?case by (metis append_Nil)
next
  case (Cons x xs)
  show ?case
  proof (cases "matchAt r (x # xs)")
    case (Some t)
    with Cons.prems have "matchAt r (x # xs) = Some (rest, c)" by (auto split: prod.splits)
    from matchAt_sound [OF this] show ?thesis by (metis append_Nil)
  next
    case None
    with Cons.prems obtain j where "search r xs = Some (j, rest, c)"
      by (auto split: option.splits)
    from Cons.IH [OF this] obtain pre w where "w \<in> lang r" "xs = pre @ w @ rest" by blast
    then have "x # xs = (x # pre) @ w @ rest" by simp
    with \<open>w \<in> lang r\<close> show ?thesis by blast
  qed
qed

section \<open>Regular expressions: matching a quoted value\<close>

lemma ms_chr_hit: "ms (chr x) (x # s, c) = [(s, c)]"
  by (simp add: chr_def)

lemma ms_chr_miss: "s = [] \<or> hd s \<noteq> x \<Longrightarrow> ms (chr x) (s, c) = []"
  by (cases s) (auto simp: chr_def)

lemma ms_lit: "ms (lit w) (w @ s, c) = [(s, c)]"
  by (induction w) (simp_all add: ms_chr_hit)

lemma ms_ws_stop: "s = [] \<or> \<not> isSpace (hd s) \<Longrightarrow> ms ws (s, c) = [(s, c)]"
  by (cases s) (auto simp: ws_def ms.simps(5))

lemma ms_star_notc:
  "q \<notin> set v \<Longrightarrow> \<exists>R. ms (Star (notc q)) (v @ q # s, c) = (q # s, c) # R \<and> inside q R"
proof (induction v)
  case Nil
  then show ?case by (simp add: ms.simps(5) notc_def inside_def)
next
  case (Cons x v)
  then obtain R where R: "ms (Star (notc q)) (v @ q # s, c) = (q # s, c) # R" "inside q R"
    by auto
  from Cons.prems have x: "x \<noteq> q" by auto
  have "ms (Star (notc q)) (x # v @ q # s, c)
        = ms (Star (notc q)) (v @ q # s, c) @ [(x # v @ q # s, c)]"
    by (subst ms.simps(5)) (simp add: notc_def x)
  then have "ms (Star (notc q)) ((x # v) @ q # s, c) = (q # s, c) # (R @ [(x # v @ q # s, c)])"
    using R(1) by simp
  moreover have "inside q (R @ [(x # v @ q # s, c)])"
    using R(2) x by (simp add: inside_def)
  ultimately show ?case by blast
qed

lemma ms_plus_notc:
  assumes "q \<notin> set v" and "v \<noteq> []"
  shows "\<exists>R. ms (plus_re (notc q)) (v @ q # s, c) = (q # s, c) # R \<and> inside q R"
proof -
  from assms(2) obtain x v' where v: "v = x # v'" by (cases v) auto
  with assms(1) have x: "x \<noteq> q" and v': "q \<notin> set v'" by auto
  have "ms (plus_re (notc q)) (v @ q # s, c) = ms (Star (notc q)) (v' @ q # s, c)"
    using x by (simp add: plus_re_def v notc_def)
  with ms_star_notc [OF v'] show ?thesis by simp
qed

lemma ms_grp_plus_notc:
  assumes "q \<notin> set v" and "v \<noteq> []"
  shows "\<exists>R. ms (Grp n (plus_re (notc q))) (v @ q # s, c) = (q # s, c(n \<mapsto> v)) # R \<and> inside q R"
proof -
  from ms_plus_notc [OF assms] obtain R
    where R: "ms (plus_re (notc q)) (v @ q # s, c) = (q # s, c) # R" "inside q R"
    by blast
  let ?f = "\<lambda>st'. (fst st', (snd st')(n \<mapsto> take (length (v @ q # s) - length (fst st')) (v @ q # s)))"
  have "ms (Grp n (plus_re (notc q))) (v @ q # s, c) = (q # s, c(n \<mapsto> v)) # map ?f R"
    by (simp add: R(1))
  moreover have "inside q (map ?f R)"
    using R(2) by (simp add: inside_def)
  ultimately show ?thesis by blast
qed

lemma inside_then_chr: "inside q R \<Longrightarrow> concat (map (ms (Seq (chr q) b)) R) = []"
  by (induction R) (auto simp: inside_def ms_chr_miss)

lemma ms_value_then_quote:
  assumes "q \<notin> set v" and "v \<noteq> []"
  shows "ms (Seq (Grp n (plus_re (notc q))) (Seq (chr q) b)) (v @ q # s, c) = ms b (s, c(n \<mapsto> v))"
proof -
  from ms_grp_plus_notc [OF assms] obtain R
    where R: "ms (Grp n (plus_re (notc q))) (v @ q # s, c) = (q # s, c(n \<mapsto> v)) # R" "inside q R"
    by blast
  show ?thesis
    using inside_then_chr [OF R(2)]
    by (simp add: R(1) ms_chr_hit del: ms.simps(7))
qed

lemma ms_Seq_chr: "ms (Seq (chr x) b) (x # s, c) = ms b (s, c)"
  by (simp add: ms_chr_hit)

lemma ms_Seq_ws: "s = [] \<or> \<not> isSpace (hd s) \<Longrightarrow> ms (Seq ws b) (s, c) = ms b (s, c)"
  by (simp add: ms_ws_stop)

lemma ms_Seq_lit: "ms (Seq (lit w) b) (w @ s, c) = ms b (s, c)"
  by (simp add: ms_lit)

lemma not_space: "\<not> isSpace dq" "\<not> isSpace CHR ''(''" "\<not> isSpace CHR '')''"
  by (simp_all add: isSpace_def dq_def)

lemma byRe_match:
  assumes "dq \<notin> set v" and "v \<noteq> []"
  shows "ms (byRe k) (locator k v, c) = [([], c(1 \<mapsto> v))]"
proof -
  have l: "locator k v = k @ CHR ''('' # dq # v @ dq # [CHR '')'']"
    by (simp add: locator_def quoted_def)
  show ?thesis
    unfolding byRe_def seqs.simps l
    by (simp only: ms_Seq_lit ms_Seq_ws ms_Seq_chr ms_value_then_quote [OF assms] not_space
          list.sel ms.simps(1) simp_thms)
qed

lemma byRe_search:
  assumes "dq \<notin> set v" and "v \<noteq> []"
  shows "\<exists>i rest m. search (byRe k) (locator k v) = Some (i, rest, m) \<and> grp m 1 = v"
proof -
  have "matchAt (byRe k) (locator k v) = Some ([], [1 \<mapsto> v])"
    by (simp add: matchAt_def byRe_match [OF assms])
  then show ?thesis
    by (cases "locator k v") (simp_all add: grp_def)
qed

section \<open>Locator Normalizer and description generator\<close>

lemma lang_lit: "lang (lit w) = {w}"
  by (induction w) (auto simp: chr_def)

lemma lang_chr: "lang (chr x) = {[x]}"
  by (auto simp: chr_def)

lemma concat_spaces:
  "set us \<subseteq> {[x] | x. isSpace x} \<Longrightarrow> \<forall>x \<in> set (concat us). isSpace x"
  by (induction us) auto

lemma lang_ws: "u \<in> lang ws \<Longrightarrow> \<forall>x \<in> set u. isSpace x"
  using concat_spaces by (auto simp: ws_def)

lemma lang_SeqE: "w \<in> lang (Seq a b) \<Longrightarrow> \<exists>u v. w = u @ v \<and> u \<in> lang a \<and> v \<in> lang b"
  by auto

lemma lang_byRe:
  assumes "w \<in> lang (byRe k)"
  shows "\<exists>a b u t. w = k @ a @ CHR ''('' # b @ dq # u @ dq # t
           \<and> (\<forall>x \<in> set a. isSpace x) \<and> (\<forall>x \<in> set b. isSpace x)"
proof -
  let ?r6 = "seqs [chr dq, ws, chr CHR '')'']"
  let ?r5 = "Seq (Grp 1 (plus_re (notc dq))) ?r6"
  let ?r4 = "Seq (chr dq) ?r5"
  let ?r3 = "Seq ws ?r4"
  let ?r2 = "Seq (chr CHR ''('') ?r3"
  let ?r1 = "Seq ws ?r2"
  from assms have "w \<in> lang (Seq (lit k) ?r1)"
    by (simp only: byRe_def seqs.simps)
  from lang_SeqE [OF this] obtain w0 w1 where 1: "w = w0 @ w1" "w0 \<in> lang (lit k)" "w1 \<in> lang ?r1"
    by blast
  from lang_SeqE [OF 1(3)] obtain a w2 where 2: "w1 = a @ w2" "a \<in> lang ws" "w2 \<in> lang ?r2"
    by blast
  from lang_SeqE [OF 2(3)] obtain p w3 where 3: "w2 = p @ w3" "p \<in> lang (chr CHR ''('')" "w3 \<in> lang ?r3"
    by blast
  from lang_SeqE [OF 3(3)] obtain b w4 where 4: "w3 = b @ w4" "b \<in> lang ws" "w4 \<in> lang ?r4"
    by blast
  from lang_SeqE [OF 4(3)] obtain q w5 where 5: "w4 = q @ w5" "q \<in> lang (chr dq)" "w5 \<in> lang ?r5"
    by blast
  from lang_SeqE [OF 5(3)] obtain u w6 where 6: "w5 = u @ w6" "w6 \<in> lang ?r6"
    by blast
  from 6(2) have "w6 \<in> lang (Seq (chr dq) (seqs [ws, chr CHR '')'']))"
    by (simp only: seqs.simps)
  from lang_SeqE [OF this] obtain q' t where 7: "w6 = q' @ t" "q' \<in> lang (chr dq)"
    by blast
  from 1(2) 3(2) 5(2) 7(2) have "w0 = k" "p = ''(''" "q = [dq]" "q' = [dq]"
    by (simp_all only: lang_lit lang_chr singleton_iff)
  with 1 2 3 4 5 6 7 have "w = k @ a @ CHR ''('' # b @ dq # u @ dq # t" by simp
  with lang_ws [OF 2(2)] lang_ws [OF 4(2)] show ?thesis by blast
qed

lemma takeWhile_first: "q \<notin> set X \<Longrightarrow> takeWhile (\<lambda>x. x \<noteq> q) (X @ q # Y) = X"
  by (induction X) auto

lemma locator_decomp:
  assumes eq: "locator K' v = pre @ (K @ a @ CHR ''('' # b @ dq # u @ dq # t) @ post"
    and v: "dq \<notin> set v" and K': "dq \<notin> set K'" "K' \<noteq> []" "\<not> isSpace (last K')"
    and a: "\<forall>x \<in> set a. isSpace x" and b: "\<forall>x \<in> set b. isSpace x"
  shows "suffix K K'"
proof -
  let ?X = "pre @ K @ a @ CHR ''('' # b"
  have l: "locator K' v = (K' @ ''('') @ dq # v @ dq # '')''"
    by (simp add: locator_def quoted_def)
  have r: "locator K' v = ?X @ dq # u @ dq # t @ post"
    by (simp add: eq)
  have "count_list (locator K' v) dq = 2"
    using v K'(1) by (simp add: l dq_def count_list_0_iff [THEN iffD2])
  then have "count_list ?X dq = 0"
    by (simp add: r dq_def)
  then have X: "dq \<notin> set ?X"
    by (simp only: count_list_0_iff simp_thms)
  have "dq \<notin> set (K' @ ''('')"
    using K'(1) by (simp add: dq_def)
  then have "takeWhile (\<lambda>x. x \<noteq> dq) (locator K' v) = K' @ ''(''"
    unfolding l by (rule takeWhile_first)
  moreover have "takeWhile (\<lambda>x. x \<noteq> dq) (locator K' v) = ?X"
    unfolding r using X by (rule takeWhile_first)
  ultimately have e: "K' @ ''('' = ?X" by simp
  have bn: "b = []"
  proof (rule ccontr)
    assume "b \<noteq> []"
    then have "last ?X = last b" by simp
    with e have "last b = CHR ''(''" by (metis last_snoc)
    with b \<open>b \<noteq> []\<close> have "isSpace CHR ''(''" by (metis last_in_set)
    then show False by (simp add: isSpace_def)
  qed
  with e have e2: "K' = pre @ K @ a" by simp
  have an: "a = []"
  proof (rule ccontr)
    assume "a \<noteq> []"
    then have "last K' = last a" by (simp add: e2)
    with a \<open>a \<noteq> []\<close> have "isSpace (last K')" by (metis last_in_set)
    with K'(3) show False by simp
  qed
  with e2 show ?thesis by (simp add: suffix_def)
qed

lemma byRe_no_match:
  assumes "\<not> suffix K K'" and "dq \<notin> set v" and "dq \<notin> set K'" "K' \<noteq> []" "\<not> isSpace (last K')"
  shows "search (byRe K) (locator K' v) = None"
proof (rule ccontr)
  assume "search (byRe K) (locator K' v) \<noteq> None"
  then obtain i rest c where "search (byRe K) (locator K' v) = Some (i, rest, c)"
    by auto
  from search_sound [OF this] obtain pre w
    where w: "w \<in> lang (byRe K)" "locator K' v = pre @ w @ rest" by blast
  from lang_byRe [OF w(1)] obtain a b u t
    where s: "w = K @ a @ CHR ''('' # b @ dq # u @ dq # t"
      "\<forall>x \<in> set a. isSpace x" "\<forall>x \<in> set b. isSpace x" by blast
  from w(2) s(1) have "locator K' v = pre @ (K @ a @ CHR ''('' # b @ dq # u @ dq # t) @ rest"
    by simp
  from locator_decomp [OF this assms(2-5) s(2,3)] assms(1) show False by simp
qed

lemma nameAttr_match:
  assumes "dq \<notin> set v" and "v \<noteq> []"
  shows "ms nameAttrRe (''[name='' @ quoted v @ '']'', c) = [([], c(1 \<mapsto> v))]"
proof -
  have l: "''[name='' @ quoted v @ '']'' = ''[name='' @ dq # v @ dq # '']''"
    by (simp add: quoted_def)
  show ?thesis
    unfolding nameAttrRe_def seqs.simps l
    by (simp only: ms_Seq_lit ms_Seq_chr ms_value_then_quote [OF assms] ms.simps(1))
qed

lemma lang_nameAttr: "w \<in> lang nameAttrRe \<Longrightarrow> dq \<in> set w"
  by (auto simp: nameAttrRe_def lang_lit lang_chr)

lemma nameAttr_no_match:
  assumes "dq \<notin> set s"
  shows "search nameAttrRe s = None"
proof (rule ccontr)
  assume "search nameAttrRe s \<noteq> None"
  then obtain i rest c where "search nameAttrRe s = Some (i, rest, c)" by auto
  from search_sound [OF this] obtain pre w where "w \<in> lang nameAttrRe" "s = pre @ w @ rest"
    by blast
  with lang_nameAttr [of w] assms show False by auto
qed

lemma by_names:
  "dq \<notin> set ''By.id''" "dq \<notin> set ''By.name''" "dq \<notin> set ''By.className''" "dq \<notin> set ''By.tagName''"
  "\<not> isSpace (last ''By.name'')" "\<not> isSpace (last ''By.className'')" "\<not> isSpace (last ''By.tagName'')"
  by (simp_all add: dq_def isSpace_def)

lemma by_suffixes:
  "\<not> suffix ''By.id'' ''By.name''"
  "\<not> suffix ''By.id'' ''By.className''"
  "\<not> suffix ''By.name'' ''By.className''"
  "\<not> suffix ''By.cssSelector'' ''By.className''"
  "\<not> suffix ''By.xpath'' ''By.className''"
  "\<not> suffix ''By.id'' ''By.tagName''"
  "\<not> suffix ''By.name'' ''By.tagName''"
  "\<not> suffix ''By.cssSelector'' ''By.tagName''"
  "\<not> suffix ''By.xpath'' ''By.tagName''"
  "\<not> suffix ''By.className'' ''By.tagName''"
  by (simp_all add: suffix_to_prefix)

lemma by_nonempty:
  "''By.name'' \<noteq> []" "''By.className'' \<noteq> []" "''By.tagName'' \<noteq> []"
  by simp_all

lemma other_locators_miss:
  assumes "dq \<notin> set v"
  shows "search (byRe ''By.id'') (locator ''By.name'' v) = None"
    and "search (byRe ''By.id'') (locator ''By.className'' v) = None"
    and "search (byRe ''By.name'') (locator ''By.className'' v) = None"
    and "search (byRe ''By.cssSelector'') (locator ''By.className'' v) = None"
    and "search (byRe ''By.xpath'') (locator ''By.className'' v) = None"
    and "search (byRe ''By.id'') (locator ''By.tagName'' v) = None"
    and "search (byRe ''By.name'') (locator ''By.tagName'' v) = None"
    and "search (byRe ''By.cssSelector'') (locator ''By.tagName'' v) = None"
    and "search (byRe ''By.xpath'') (locator ''By.tagName'' v) = None"
    and "search (byRe ''By.className'') (locator ''By.tagName'' v) = None"
  by (rule byRe_no_match [OF by_suffixes(1) assms by_names(2) by_nonempty(1) by_names(5)]
      byRe_no_match [OF by_suffixes(2) assms by_names(3) by_nonempty(2) by_names(6)]
      byRe_no_match [OF by_suffixes(3) assms by_names(3) by_nonempty(2) by_names(6)]
      byRe_no_match [OF by_suffixes(4) assms by_names(3) by_nonempty(2) by_names(6)]
      byRe_no_match [OF by_suffixes(5) assms by_names(3) by_nonempty(2) by_names(6)]
      byRe_no_match [OF by_suffixes(6) assms by_names(4) by_nonempty(3) by_names(7)]
      byRe_no_match [OF by_suffixes(7) assms by_names(4) by_nonempty(3) by_names(7)]
      byRe_no_match [OF by_suffixes(8) assms by_names(4) by_nonempty(3) by_names(7)]
      byRe_no_match [OF by_suffixes(9) assms by_names(4) by_nonempty(3) by_names(7)]
      byRe_no_match [OF by_suffixes(10) assms by_names(4) by_nonempty(3) by_names(7)])+

lemma byToSelector_locator:
  assumes "dq \<notin> set v" and "v \<noteq> []"
  shows "byToSelector (locator ''By.id'' v) = ''#'' @ v"
    and "byToSelector (locator ''By.name'' v) = ''[name='' @ quoted v @ '']''"
    and "byToSelector (locator ''By.className'' v) = ''.'' @ v"
    and "byToSelector (locator ''By.tagName'' v) = v"
proof -
  note n = other_locators_miss [OF assms(1)]
  from byRe_search [OF assms, of "''By.id''"] obtain i rest m
    where "search (byRe ''By.id'') (locator ''By.id'' v) = Some (i, rest, m)" "grp m 1 = v"
    by blast
  then show "byToSelector (locator ''By.id'' v) = ''#'' @ v"
    by (simp add: byToSelector_def)
  from byRe_search [OF assms, of "''By.name''"] obtain i rest m
    where "search (byRe ''By.name'') (locator ''By.name'' v) = Some (i, rest, m)" "grp m 1 = v"
    by blast
  then show "byToSelector (locator ''By.name'' v) = ''[name='' @ quoted v @ '']''"
    by (simp add: byToSelector_def n)
  from byRe_search [OF assms, of "''By.className''"] obtain i rest m
    where "search (byRe ''By.className'') (locator ''By.className'' v) = Some (i, rest, m)"
      "grp m 1 = v"
    by blast
  then show "byToSelector (locator ''By.className'' v) = ''.'' @ v"
    by (simp add: byToSelector_def n)
  from byRe_search [OF assms, of "''By.tagName''"] obtain i rest m
    where "search (byRe ''By.tagName'') (locator ''By.tagName'' v) = Some (i, rest, m)"
      "grp m 1 = v"
    by blast
  then show "byToSelector (locator ''By.tagName'' v) = v"
    by (simp add: byToSelector_def n)
qed

lemma describe_id: "selectorToDescription (''#'' @ v) = ''element with id='' @ quoted v"
  by (simp add: selectorToDescription_def startsWith_def slice_from_def)

lemma describe_class: "selectorToDescription (''.'' @ v) = ''element with class='' @ quoted v"
  by (simp add: selectorToDescription_def startsWith_def slice_from_def)

lemma describe_name:
  assumes "dq \<notin> set v" and "v \<noteq> []"
  shows "selectorToDescription (''[name='' @ quoted v @ '']'') = ''input with name='' @ quoted v"
proof -
  have "matchAt nameAttrRe (''[name='' @ quoted v @ '']'') = Some ([], [1 \<mapsto> v])"
    by (simp only: matchAt_def nameAttr_match [OF assms] list.case)
  then have "search nameAttrRe (''[name='' @ quoted v @ '']'') = Some (0, [], [1 \<mapsto> v])"
    by simp
  then show ?thesis
    by (simp add: selectorToDescription_def startsWith_def grp_def)
qed

lemma describe_plain:
  assumes "dq \<notin> set v"
    and "\<not> startsWith v ''#''" "\<not> startsWith v ''.''" "\<not> startsWith v ''text=''"
    and "\<not> startsWith v ''xpath=''"
  shows "selectorToDescription v = (if startsWith v ''[name='' then ''input with name='' @ quoted v
                                   else v)"
  using assms by (simp add: selectorToDescription_def nameAttr_no_match)

lemma sublist_quoted: "sublist v (p @ quoted v)"
proof -
  have "p @ quoted v = (p @ [dq]) @ v @ [dq]" by (simp add: quoted_def)
  then show ?thesis by (simp only: sublist_appendI)
qed

text \<open>
  C8, as stated, fails for a tag locator whose value starts like another selector form:
  \<open>By.tagName("#a")\<close> is normalized to \<open>#a\<close> and described as the element with id
  \<open>a\<close>. It also fails for a value with an escaped double quote, which the pattern
  \<open>"([^"]+)"\<close> cuts short.
\<close>

theorem C8_tag_value_with_hash:
  "\<not> sublist ''#a'' (selectorToDescription (byToSelector (locator ''By.tagName'' ''#a'')))
   \<and> \<not> sublist (''x'' @ [CHR 0x5C, dq] @ '')y'')
         (selectorToDescription (byToSelector (locator ''By.id'' (''x'' @ [CHR 0x5C, dq] @ '')y''))))"
  by code_simp

text \<open>
  C8 (amended): for a raw value \<open>v\<close> without a double quote, normalizing the id, name or
  class locator of \<open>v\<close> and describing the result gives a description that contains \<open>v\<close>;
  so does the tag locator when \<open>v\<close> does not start with \<open>#\<close>, \<open>.\<close>, \<open>text=\<close> or
  \<open>xpath=\<close>. The normalized selectors are those of the table.
\<close>

theorem C8_normalize_then_describe:
  assumes "dq \<notin> set v"
  shows "sublist v (selectorToDescription (byToSelector (locator ''By.id'' v)))
     \<and> sublist v (selectorToDescription (byToSelector (locator ''By.name'' v)))
     \<and> sublist v (selectorToDescription (byToSelector (locator ''By.className'' v)))
     \<and> (\<not> startsWith v ''#'' \<and> \<not> startsWith v ''.'' \<and> \<not> startsWith v ''text=''
          \<and> \<not> startsWith v ''xpath=''
        \<longrightarrow> sublist v (selectorToDescription (byToSelector (locator ''By.tagName'' v))))
     \<and> (v \<noteq> [] \<longrightarrow>
          byToSelector (locator ''By.id'' v) = ''#'' @ v
        \<and> byToSelector (locator ''By.name'' v) = ''[name='' @ quoted v @ '']''
        \<and> byToSelector (locator ''By.className'' v) = ''.'' @ v
        \<and> byToSelector (locator ''By.tagName'' v) = v)"
proof (cases "v = []")
  case True
  then show ?thesis by simp
next
  case False
  note n = assms False
  have tag: "sublist v (selectorToDescription v)"
    if "\<not> startsWith v ''#''" "\<not> startsWith v ''.''" "\<not> startsWith v ''text=''"
      "\<not> startsWith v ''xpath=''"
    using describe_plain [OF assms that] sublist_quoted [of v "''input with name=''"]
    by (simp split: if_splits)
  have id: "sublist v (selectorToDescription (byToSelector (locator ''By.id'' v)))"
    by (simp only: byToSelector_locator [OF n] describe_id sublist_quoted)
  have nm: "sublist v (selectorToDescription (byToSelector (locator ''By.name'' v)))"
    by (simp only: byToSelector_locator [OF n] describe_name [OF n] sublist_quoted)
  have cl: "sublist v (selectorToDescription (byToSelector (locator ''By.className'' v)))"
    by (simp only: byToSelector_locator [OF n] describe_class sublist_quoted)
  have tg: "\<not> startsWith v ''#'' \<and> \<not> startsWith v ''.'' \<and> \<not> startsWith v ''text=''
          \<and> \<not> startsWith v ''xpath=''
        \<longrightarrow> sublist v (selectorToDescription (byToSelector (locator ''By.tagName'' v)))"
    using tag by (simp only: byToSelector_locator [OF n]) blast
  from id nm cl tg byToSelector_locator [OF n] show ?thesis by blast
qed

theorem C8_normalize_then_describe_witness:
  "selectorToDescription (byToSelector (locator ''By.id'' ''x'')) = ''element with id='' @ quoted ''x''
   \<and> sublist ''x'' (selectorToDescription (byToSelector (locator ''By.id'' ''x'')))
   \<and> sublist ''q'' (selectorToDescription (byToSelector (locator ''By.name'' ''q'')))
   \<and> sublist ''btn'' (selectorToDescription (byToSelector (locator ''By.className'' ''btn'')))
   \<and> sublist ''div'' (selectorToDescription (byToSelector (locator ''By.tagName'' ''div'')))"
proof -
  have e: "selectorToDescription (byToSelector (locator ''By.id'' ''x'')) = ''element with id='' @ quoted ''x''"
    by code_simp
  have h: "dq \<notin> set ''x''" "dq \<notin> set ''q''" "dq \<notin> set ''btn''" "dq \<notin> set ''div''"
    by (simp_all add: dq_def)
  have d: "\<not> startsWith ''div'' ''#'' \<and> \<not> startsWith ''div'' ''.'' \<and> \<not> startsWith ''div'' ''text=''
          \<and> \<not> startsWith ''div'' ''xpath=''"
    by (simp add: startsWith_def)
  from e d C8_normalize_then_describe [OF h(1)] C8_normalize_then_describe [OF h(2)]
    C8_normalize_then_describe [OF h(3)] C8_normalize_then_describe [OF h(4)]
  show ?thesis by blast
qed

end
